theory Spec2Isabelle
  imports Complex_Main
begin

section \<open>The Robin Hood hash table of hash_map.h\<close>

text \<open>
  Conventions of the embedding.
  \<^item> \<open>size_t\<close> quantities (capacity, counters, slot indices, probe distances) are natural
    numbers. Every one of them is bounded by the number of allocated slots, so that no
    addition of the source wraps; the one subtraction (\<open>size()\<close>) has its wrap-around
    below zero written out. Allocation is taken to succeed.
  \<^item> \<open>int\<close> is 32 bits wide: the cast \<open>static_cast<int>(index)\<close> is written out.
  \<^item> \<open>KeyType()\<close> and \<open>ValueType()\<close> are the value \<open>default\<close> of the type.
  \<^item> An iterator is the slot index it holds; the table it points into is the one at hand.
  \<^item> Members keep their names without the trailing underscore (\<open>data_\<close> is \<open>data\<close>).
  \<^item> Reading \<open>data_[index]\<close> outside the vector and \<open>% 0\<close> are undefined behaviour in
    the source; the invariant \<open>table_inv\<close> below shows that neither happens in a
    reachable table.
\<close>

instantiation int :: default
begin
definition default_int :: int where "default_int = 0"
instance ..
end

subsection \<open>Data model\<close>

record ('k, 'v) Node =
  keyvalue :: "'k \<times> 'v"
  status :: int
  dist_to_ideal :: nat

text \<open>\<open>Node()\<close>: an empty slot (status -1).\<close>

definition Node_empty :: "('k::default, 'v::default) Node" where
  "Node_empty = \<lparr>keyvalue = (default, default), status = - 1, dist_to_ideal = 0\<rparr>"

text \<open>\<open>Node(p, dist)\<close>: an occupied slot (status 1); \<open>dist0\<close> is the parameter \<open>dist\<close>.\<close>

definition Node_of :: "'k \<times> 'v \<Rightarrow> nat \<Rightarrow> ('k, 'v) Node" where
  "Node_of p dist0 = \<lparr>keyvalue = p, status = 1, dist_to_ideal = dist0\<rparr>"

record ('k, 'v) HashMap =
  hasher :: "'k \<Rightarrow> nat"
  data :: "('k, 'v) Node list"
  cnt_all :: nat
  cnt_dead :: nat
  buffer_size :: nat

text \<open>The members \<open>default_size_ = 16\<close> and \<open>load_factor_ = 0.5\<close> are never written.\<close>

definition default_size :: nat where
  "default_size = 16"

definition load_factor :: real where
  "load_factor = 0.5"

datatype error = KeyNotFound

text \<open>Which \<open>return\<close> statement a scan left through.\<close>

datatype exit_point = AtMatch | AtEmpty | FellThrough

subsection \<open>Construction, assignment, simple observers\<close>

definition HashMap_new :: "('k \<Rightarrow> nat) \<Rightarrow> ('k::default, 'v::default) HashMap" where
  "HashMap_new h =
     \<lparr>hasher = h, data = replicate default_size Node_empty,
      cnt_all = 0, cnt_dead = 0, buffer_size = default_size\<rparr>"

text \<open>\<open>operator=\<close>: member-wise copy; the vector is copied element by element.\<close>

definition assign :: "('k, 'v) HashMap \<Rightarrow> ('k, 'v) HashMap \<Rightarrow> ('k, 'v) HashMap" where
  "assign this other =
     this\<lparr>hasher := hasher other, cnt_all := cnt_all other, cnt_dead := cnt_dead other,
          buffer_size := buffer_size other, data := data other\<rparr>"


text \<open>\<open>cnt_all_ - cnt_dead_\<close> in \<open>size_t\<close>: below zero the difference wraps to \<open>2^64 + \<dots>\<close>.\<close>

definition size_hm :: "('k, 'v) HashMap \<Rightarrow> nat" where
  "size_hm hm =
     (if cnt_dead hm \<le> cnt_all hm then cnt_all hm - cnt_dead hm
      else 2 ^ 64 + cnt_all hm - cnt_dead hm)"

definition empty_hm :: "('k, 'v) HashMap \<Rightarrow> bool" where
  "empty_hm hm \<longleftrightarrow>
     (if cnt_dead hm \<le> cnt_all hm then cnt_all hm - cnt_dead hm
      else 2 ^ 64 + cnt_all hm - cnt_dead hm) = 0"

definition end_hm :: "('k, 'v) HashMap \<Rightarrow> nat" where
  "end_hm hm = length (data hm)"

definition get_hash :: "('k, 'v) HashMap \<Rightarrow> 'k \<Rightarrow> nat" where
  "get_hash hm k = hasher hm k mod buffer_size hm"

definition static_cast_int :: "nat \<Rightarrow> int" where
  "static_cast_int n = (int n + 2 ^ 31) mod 2 ^ 32 - 2 ^ 31"

definition size_t_of_int :: "int \<Rightarrow> nat" where
  "size_t_of_int z = nat (z mod 2 ^ 64)"

subsection \<open>find, at\<close>

function find_loop :: "('k, 'v) HashMap \<Rightarrow> 'k \<Rightarrow> nat \<Rightarrow> nat \<Rightarrow> nat \<times> exit_point" where
  "find_loop hm key h1 i =
     (if i < buffer_size hm then
        (let index = (h1 + i) mod buffer_size hm in
         if status (data hm ! index) = 1 \<and> fst (keyvalue (data hm ! index)) = key
         then (index, AtMatch)
         else if status (data hm ! index) = - 1
         then (buffer_size hm, AtEmpty)
         else find_loop hm key h1 (i + 1))
      else (buffer_size hm, FellThrough))"
  by pat_completeness auto
termination
  by (relation "measure (\<lambda>(hm, key, h1, i). buffer_size hm - i)") auto

definition find_hm :: "('k, 'v) HashMap \<Rightarrow> 'k \<Rightarrow> nat" where
  "find_hm hm key = fst (find_loop hm key (get_hash hm key) 0)"

definition at_hm :: "('k, 'v) HashMap \<Rightarrow> 'k \<Rightarrow> error + 'v" where
  "at_hm hm key =
     (let it = find_hm hm key in
      if it = end_hm hm then Inl KeyNotFound
      else Inr (snd (keyvalue (data hm ! it))))"

subsection \<open>erase\<close>

function erase_loop ::
  "('k, 'v) HashMap \<Rightarrow> 'k \<Rightarrow> nat \<Rightarrow> nat \<Rightarrow> ('k, 'v) HashMap \<times> exit_point" where
  "erase_loop hm key h1 i =
     (if i < buffer_size hm then
        (let index = (h1 + i) mod buffer_size hm;
             hm1 = (if status (data hm ! index) = 1 \<and> fst (keyvalue (data hm ! index)) = key
                    then hm\<lparr>data := (data hm)[index := (data hm ! index)\<lparr>status := 0\<rparr>],
                            cnt_dead := cnt_dead hm + 1\<rparr>
                    else hm)
         in if status (data hm1 ! index) = - 1 then (hm1, AtEmpty)
            else erase_loop hm1 key h1 (i + 1))
      else (hm, FellThrough))"
  by pat_completeness auto
termination
  by (relation "measure (\<lambda>(hm, key, h1, i). buffer_size hm - i)") auto

definition erase :: "('k, 'v) HashMap \<Rightarrow> 'k \<Rightarrow> ('k, 'v) HashMap" where
  "erase hm key = fst (erase_loop hm key (get_hash hm key) 0)"

subsection \<open>insert and resize\<close>

text \<open>
  The scan of \<open>insert\<close>, after the call of \<open>resize\<close>. \<open>key\<close> is the key of the pair given
  to \<open>insert\<close>; \<open>kv\<close> is the pair being carried, which a swap replaces.
\<close>

function insert_loop ::
  "('k, 'v) HashMap \<Rightarrow> 'k \<Rightarrow> nat \<Rightarrow> nat \<Rightarrow> 'k \<times> 'v \<Rightarrow> nat \<Rightarrow> int \<Rightarrow>
   ('k, 'v) HashMap \<times> nat \<times> exit_point" where
  "insert_loop hm key h1 i kv cur_dist_to_ideal insert_index =
     (if i < buffer_size hm then
        (let index = (h1 + i) mod buffer_size hm in
         if status (data hm ! index) = 1 \<and> fst (keyvalue (data hm ! index)) = key
         then (hm, index, AtMatch)
         else
           (let (hm1, kv1, cur1, ins1) =
              (if status (data hm ! index) = 1
                  \<and> dist_to_ideal (data hm ! index) < cur_dist_to_ideal
               then (hm\<lparr>data := (data hm)[index := (data hm ! index)
                            \<lparr>keyvalue := kv, dist_to_ideal := cur_dist_to_ideal\<rparr>]\<rparr>,
                     keyvalue (data hm ! index),
                     dist_to_ideal (data hm ! index),
                     if insert_index = - 1 then static_cast_int index else insert_index)
               else (hm, kv, cur_dist_to_ideal, insert_index))
            in if status (data hm1 ! index) = - 1
               then (hm1\<lparr>data := (data hm1)[index := Node_of kv1 cur1],
                         cnt_all := cnt_all hm1 + 1\<rparr>,
                     size_t_of_int (if ins1 = - 1 then static_cast_int index else ins1),
                     AtEmpty)
               else insert_loop hm1 key h1 (i + 1) kv1 (cur1 + 1) ins1))
      else (hm, buffer_size hm, FellThrough))"
  by pat_completeness auto
termination
  by (relation "measure (\<lambda>(hm, key, h1, i, kv, c, ins). buffer_size hm - i)")
     (auto split: if_splits)

text \<open>
  \<open>insert\<close> calls \<open>resize\<close>, and \<open>resize\<close> calls \<open>insert\<close> for every occupied slot of the
  old array. The first argument of \<open>insert_hm\<close> bounds the depth of these nested calls;
  \<open>None\<close> says that the bound was too small. \<open>resize_with ins\<close> is \<open>resize\<close> with \<open>ins\<close>
  for its calls of \<open>insert\<close>; \<open>reinsert\<close> is its loop over the old array \<open>data_2\<close>.
\<close>

fun reinsert ::
  "(('k, 'v) HashMap \<Rightarrow> 'k \<times> 'v \<Rightarrow> (('k, 'v) HashMap \<times> nat \<times> exit_point) option) \<Rightarrow>
   ('k, 'v) Node list \<Rightarrow> ('k, 'v) HashMap \<Rightarrow> ('k, 'v) HashMap option" where
  "reinsert ins [] hm = Some hm"
| "reinsert ins (n # ns) hm =
     (if status n = 1
      then (case ins hm (keyvalue n) of
              None \<Rightarrow> None
            | Some (hm', it) \<Rightarrow> reinsert ins ns hm')
      else reinsert ins ns hm)"

definition resize_with ::
  "(('k::default, 'v::default) HashMap \<Rightarrow> 'k \<times> 'v \<Rightarrow>
      (('k, 'v) HashMap \<times> nat \<times> exit_point) option) \<Rightarrow>
   ('k, 'v) HashMap \<Rightarrow> ('k, 'v) HashMap option" where
  "resize_with ins hm =
     (if real (buffer_size hm) * load_factor < real (cnt_all hm)
      then reinsert ins (data hm)
             (hm\<lparr>buffer_size := buffer_size hm * 2, cnt_dead := 0, cnt_all := 0,
                 data := replicate (buffer_size hm * 2) Node_empty\<rparr>)
      else Some hm)"

primrec insert_hm ::
  "nat \<Rightarrow> ('k::default, 'v::default) HashMap \<Rightarrow> 'k \<times> 'v \<Rightarrow>
   (('k, 'v) HashMap \<times> nat \<times> exit_point) option" where
  "insert_hm 0 hm kv = None"
| "insert_hm (Suc d) hm kv =
     (case resize_with (insert_hm d) hm of
        None \<Rightarrow> None
      | Some hm1 \<Rightarrow> Some (insert_loop hm1 (fst kv) (get_hash hm1 (fst kv)) 0 kv 0 (- 1)))"

definition resize ::
  "nat \<Rightarrow> ('k::default, 'v::default) HashMap \<Rightarrow> ('k, 'v) HashMap option" where
  "resize d hm = resize_with (insert_hm d) hm"

subsection \<open>operator[], writes through a reference, clear\<close>

text \<open>\<open>operator[]\<close> returns the table and the slot whose \<open>second\<close> the reference denotes.\<close>

definition subscript ::
  "nat \<Rightarrow> ('k::default, 'v::default) HashMap \<Rightarrow> 'k \<Rightarrow> (('k, 'v) HashMap \<times> nat) option" where
  "subscript d hm key =
     (let it = find_hm hm key in
      if it = end_hm hm
      then (case insert_hm d hm (key, default) of
              None \<Rightarrow> None
            | Some (hm', it', ex) \<Rightarrow> Some (hm', it'))
      else Some (hm, it))"

text \<open>\<open>it->second = v\<close>, for an iterator or reference to an occupied slot.\<close>

definition store_second :: "('k, 'v) HashMap \<Rightarrow> nat \<Rightarrow> 'v \<Rightarrow> ('k, 'v) HashMap" where
  "store_second hm it v =
     hm\<lparr>data := (data hm)[it := (data hm ! it)\<lparr>keyvalue := (fst (keyvalue (data hm ! it)), v)\<rparr>]\<rparr>"

definition clear :: "('k::default, 'v::default) HashMap \<Rightarrow> ('k, 'v) HashMap" where
  "clear hm = assign hm (HashMap_new (hasher hm))"

subsection \<open>The pairs of a table, insertion of a range\<close>

text \<open>The pairs of the occupied slots, in slot order.\<close>

definition entries :: "('k, 'v) HashMap \<Rightarrow> ('k \<times> 'v) list" where
  "entries hm = map keyvalue (filter (\<lambda>nd. status nd = 1) (data hm))"

text \<open>Inserting the pairs of a list in order, as the range constructors and the
  initializer-list constructor do; \<open>ins\<close> stands for \<open>insert\<close>.\<close>

fun insert_range ::
  "(('k, 'v) HashMap \<Rightarrow> 'k \<times> 'v \<Rightarrow> (('k, 'v) HashMap \<times> nat \<times> exit_point) option) \<Rightarrow>
   ('k \<times> 'v) list \<Rightarrow> ('k, 'v) HashMap \<Rightarrow> ('k, 'v) HashMap option" where
  "insert_range ins [] hm = Some hm"
| "insert_range ins (kv # kvs) hm =
     (case ins hm kv of None \<Rightarrow> None | Some (hm', it) \<Rightarrow> insert_range ins kvs hm')"

subsection \<open>Reachable tables, abstraction, invariant\<close>

text \<open>
  The tables that the public member functions make of a new table, and (\<open>reach_rehash\<close>)
  the tables that exist inside \<open>resize\<close> while it re-inserts the first \<open>n\<close> occupied pairs
  of the old array: the nested calls of \<open>insert\<close> scan these.
\<close>

inductive reachable :: "('k::default, 'v::default) HashMap \<Rightarrow> bool" where
  reach_new: "reachable (HashMap_new h)"
| reach_insert: "reachable hm \<Longrightarrow> insert_hm d hm kv = Some (hm', it, ex) \<Longrightarrow> reachable hm'"
| reach_erase: "reachable hm \<Longrightarrow> reachable (erase hm key)"
| reach_subscript: "reachable hm \<Longrightarrow> subscript d hm key = Some (hm', it) \<Longrightarrow> reachable hm'"
| reach_store: "reachable hm \<Longrightarrow> it < length (data hm) \<Longrightarrow> status (data hm ! it) = 1 \<Longrightarrow>
                reachable (store_second hm it v)"
| reach_clear: "reachable hm \<Longrightarrow> reachable (clear hm)"
| reach_assign: "reachable other \<Longrightarrow> reachable (assign this other)"
| reach_rehash: "reachable hm \<Longrightarrow> real (buffer_size hm) * load_factor < real (cnt_all hm) \<Longrightarrow>
                 insert_range (insert_hm d) (take n (entries hm))
                   (hm\<lparr>buffer_size := buffer_size hm * 2, cnt_dead := 0, cnt_all := 0,
                       data := replicate (buffer_size hm * 2) Node_empty\<rparr>) = Some hm' \<Longrightarrow>
                 reachable hm'"

text \<open>
  \<open>chain_ok xs hc c\<close>: the \<open>c\<close> slots from \<open>hc\<close> on (wrapping) are not empty, and an
  occupied one among them lies at least as far from its ideal slot as from \<open>hc\<close>, so
  that a scan starting at \<open>hc\<close> passes it without a swap.
\<close>

definition chain_ok :: "('k, 'v) Node list \<Rightarrow> nat \<Rightarrow> nat \<Rightarrow> bool" where
  "chain_ok xs hc c \<longleftrightarrow>
     (\<forall>j<c. status (xs ! ((hc + j) mod length xs)) \<noteq> - 1
          \<and> (status (xs ! ((hc + j) mod length xs)) = 1
               \<longrightarrow> j \<le> dist_to_ideal (xs ! ((hc + j) mod length xs))))"

definition slots_ok :: "('k \<Rightarrow> nat) \<Rightarrow> ('k, 'v) Node list \<Rightarrow> bool" where
  "slots_ok f xs \<longleftrightarrow>
     (\<forall>p<length xs. status (xs ! p) = 1 \<longrightarrow>
        dist_to_ideal (xs ! p) < length xs
      \<and> (f (fst (keyvalue (xs ! p))) mod length xs + dist_to_ideal (xs ! p)) mod length xs = p
      \<and> chain_ok xs (f (fst (keyvalue (xs ! p))) mod length xs) (dist_to_ideal (xs ! p)))"

definition keys_unique :: "('k, 'v) Node list \<Rightarrow> bool" where
  "keys_unique xs \<longleftrightarrow>
     (\<forall>p<length xs. \<forall>q<length xs.
        status (xs ! p) = 1 \<and> status (xs ! q) = 1
        \<and> fst (keyvalue (xs ! p)) = fst (keyvalue (xs ! q)) \<longrightarrow> p = q)"

definition statuses_ok :: "('k, 'v) Node list \<Rightarrow> bool" where
  "statuses_ok xs \<longleftrightarrow> (\<forall>p<length xs. status (xs ! p) \<in> {- 1, 0, 1})"

definition nonempty_slots :: "('k, 'v) Node list \<Rightarrow> nat set" where
  "nonempty_slots xs = {p. p < length xs \<and> status (xs ! p) \<noteq> - 1}"

definition dead_slots :: "('k, 'v) Node list \<Rightarrow> nat set" where
  "dead_slots xs = {p. p < length xs \<and> status (xs ! p) = 0}"

definition table_inv :: "('k, 'v) HashMap \<Rightarrow> bool" where
  "table_inv hm \<longleftrightarrow>
     length (data hm) = buffer_size hm \<and> 16 \<le> buffer_size hm
   \<and> statuses_ok (data hm)
   \<and> cnt_all hm = card (nonempty_slots (data hm))
   \<and> cnt_dead hm = card (dead_slots (data hm))
   \<and> 2 * cnt_all hm \<le> buffer_size hm + 2
   \<and> slots_ok (hasher hm) (data hm)
   \<and> keys_unique (data hm)"

text \<open>The pairs of the occupied slots, as a set.\<close>

definition live :: "('k, 'v) Node list \<Rightarrow> ('k \<times> 'v) set" where
  "live xs = {keyvalue (xs ! p) | p. p < length xs \<and> status (xs ! p) = 1}"

text \<open>
  The invariant of the scan of \<open>insert\<close> for a key that the table does not hold, at the
  head of round \<open>i\<close>: \<open>kv\<close> is the carried pair and \<open>c\<close> its distance.
\<close>

definition carry_ok ::
  "('k \<Rightarrow> nat) \<Rightarrow> ('k, 'v) Node list \<Rightarrow> 'k \<Rightarrow> nat \<Rightarrow> nat \<Rightarrow> 'k \<times> 'v \<Rightarrow> nat \<Rightarrow> bool" where
  "carry_ok f xs key h1 i kv c \<longleftrightarrow>
     slots_ok f xs \<and> keys_unique xs
   \<and> c \<le> i
   \<and> (f (fst kv) mod length xs + c) mod length xs = (h1 + i) mod length xs
   \<and> chain_ok xs (f (fst kv) mod length xs) c
   \<and> fst kv \<notin> fst ` live xs
   \<and> (\<forall>p<length xs. status (xs ! p) = 1 \<and> fst (keyvalue (xs ! p)) = key
          \<longrightarrow> (\<exists>i0<i. p = (h1 + i0) mod length xs))
   \<and> (\<forall>i0<i. status (xs ! ((h1 + i0) mod length xs)) \<noteq> - 1)"

text \<open>\<open>inserted hm kv hm'\<close>: \<open>hm'\<close> is \<open>hm\<close> with the pair \<open>kv\<close> added in one empty slot.\<close>

definition inserted :: "('k, 'v) HashMap \<Rightarrow> 'k \<times> 'v \<Rightarrow> ('k, 'v) HashMap \<Rightarrow> bool" where
  "inserted hm kv hm' \<longleftrightarrow>
     hasher hm' = hasher hm \<and> buffer_size hm' = buffer_size hm
   \<and> length (data hm') = length (data hm)
   \<and> cnt_all hm' = cnt_all hm + 1 \<and> cnt_dead hm' = cnt_dead hm
   \<and> slots_ok (hasher hm) (data hm') \<and> keys_unique (data hm')
   \<and> live (data hm') = insert kv (live (data hm))
   \<and> (\<exists>x<length (data hm). status (data hm ! x) = - 1
          \<and> nonempty_slots (data hm') = insert x (nonempty_slots (data hm)))
   \<and> dead_slots (data hm') = dead_slots (data hm)
   \<and> (statuses_ok (data hm) \<longrightarrow> statuses_ok (data hm'))"

subsection \<open>Sequences of operations and what they leave\<close>

datatype ('k, 'v) command = Insert "'k \<times> 'v" | Erase 'k

fun run ::
  "nat \<Rightarrow> ('k::default, 'v::default) command list \<Rightarrow> ('k, 'v) HashMap \<Rightarrow> ('k, 'v) HashMap option" where
  "run d [] hm = Some hm"
| "run d (Insert kv # cs) hm =
     (case insert_hm d hm kv of None \<Rightarrow> None | Some (hm', it) \<Rightarrow> run d cs hm')"
| "run d (Erase key # cs) hm = run d cs (erase hm key)"

text \<open>The keys inserted and not erased afterwards.\<close>

fun keys_after :: "('k, 'v) command list \<Rightarrow> 'k set \<Rightarrow> 'k set" where
  "keys_after [] K = K"
| "keys_after (Insert kv # cs) K = keys_after cs (insert (fst kv) K)"
| "keys_after (Erase key # cs) K = keys_after cs (K - {key})"

subsection \<open>The lookup and the probe chains as the specification words them\<close>



text \<open>
  Probe-chain integrity as the specification states it: from the ideal slot of the key
  of an occupied slot \<open>i\<close> up to \<open>i\<close> (wrapping), no slot is empty.
\<close>

definition probe_chain_ok :: "('k, 'v) HashMap \<Rightarrow> bool" where
  "probe_chain_ok hm \<longleftrightarrow>
     (\<forall>i \<in> {0..<length (data hm)}. status (data hm ! i) = 1 \<longrightarrow>
        (\<forall>j \<in> {0..<(i + buffer_size hm - get_hash hm (fst (keyvalue (data hm ! i))))
                       mod buffer_size hm}.
           status (data hm ! ((get_hash hm (fst (keyvalue (data hm ! i))) + j)
                                mod buffer_size hm)) \<noteq> - 1))"

subsection \<open>Several tables on one heap\<close>

text \<open>
  The member functions that change a table, as calls on one object. \<open>M_subscript_store k v\<close>
  is \<open>map[k] = v\<close>: the write goes through the reference that \<open>operator[]\<close> returns, and
  a write outside the vector is undefined behaviour, which is no result here.
\<close>

datatype ('k, 'v) mutation =
  M_insert "'k \<times> 'v" | M_erase 'k | M_subscript_store 'k 'v | M_clear



text \<open>
  A \<open>HashMap\<close> object has its members at one address; its member \<open>data_\<close>, a
  \<open>std::vector\<close>, owns a buffer of slots at another address (\<open>obj_data\<close>). Two objects
  whose vectors had the same buffer would see each other's slots. The vector operations
  of the source:
  \<^item> \<open>data_ = other.data_\<close> copies the elements into the buffer of the target vector
    (a vector that has to reallocate takes another buffer of its own; the address of
    the target's buffer stands for either);
  \<^item> \<open>std::swap(data_, data_2)\<close> in \<open>resize\<close> exchanges the buffers of the member and of
    the local vector \<open>data_2\<close>, whose buffer is new; \<open>data_2\<close> releases the old buffer
    when \<open>resize\<close> returns (after one swap or several, the member has a new buffer);
  \<^item> everything else reads and writes \<open>data_[index]\<close> of the object itself.
  \<open>next_free\<close> is the next address that an allocation takes.
\<close>

record 'k object =
  obj_hasher :: "'k \<Rightarrow> nat"
  obj_data :: nat
  obj_cnt_all :: nat
  obj_cnt_dead :: nat
  obj_buffer_size :: nat


text \<open>The table that an object and the slots of its buffer make, and back.\<close>

definition view :: "'k object \<Rightarrow> ('k, 'v) Node list \<Rightarrow> ('k, 'v) HashMap" where
  "view ob xs =
     \<lparr>hasher = obj_hasher ob, data = xs, cnt_all = obj_cnt_all ob, cnt_dead = obj_cnt_dead ob,
      buffer_size = obj_buffer_size ob\<rparr>"

definition members :: "('k, 'v) HashMap \<Rightarrow> nat \<Rightarrow> 'k object" where
  "members hm p =
     \<lparr>obj_hasher = hasher hm, obj_data = p, obj_cnt_all = cnt_all hm,
      obj_cnt_dead = cnt_dead hm, obj_buffer_size = buffer_size hm\<rparr>"




text \<open>Whether a member function leaves the vector with a new buffer: \<open>resize\<close> swaps it
  with its local \<open>data_2\<close> when the table grows, and \<open>operator[]\<close> calls \<open>insert\<close> only
  for a key that \<open>find\<close> does not find.\<close>

fun swaps_buffer :: "('k, 'v) mutation \<Rightarrow> ('k, 'v) HashMap \<Rightarrow> bool" where
  "swaps_buffer (M_insert kv) hm \<longleftrightarrow> real (buffer_size hm) * load_factor < real (cnt_all hm)"
| "swaps_buffer (M_subscript_store key v) hm \<longleftrightarrow>
     find_hm hm key = end_hm hm \<and> real (buffer_size hm) * load_factor < real (cnt_all hm)"
| "swaps_buffer (M_erase key) hm \<longleftrightarrow> False"
| "swaps_buffer M_clear hm \<longleftrightarrow> False"




subsection \<open>Concrete tables\<close>

text \<open>A hash functor for \<open>int\<close> keys: the conversion to \<open>size_t\<close>.\<close>

definition id_hash :: "int \<Rightarrow> nat" where
  "id_hash k = nat (k mod 2 ^ 64)"

text \<open>\<open>{(1, 5)}\<close>, then \<open>{(1, 5), (17, 4)}\<close> (both keys have the ideal slot 1), then the
  latter after \<open>erase(1)\<close>.\<close>

definition table_1 :: "(int, int) HashMap" where
  "table_1 = fst (the (insert_hm 2 (HashMap_new id_hash) (1, 5)))"

definition table_2 :: "(int, int) HashMap" where
  "table_2 = fst (the (insert_hm 2 table_1 (17, 4)))"

definition table_3 :: "(int, int) HashMap" where
  "table_3 = erase table_2 1"

text \<open>Nine insertions and one erasure: nine slots of sixteen are not empty, one of them
  a tombstone.\<close>

definition commands_9 :: "(int, int) command list" where
  "commands_9 =
     [Insert (1, 10), Insert (2, 20), Insert (3, 30), Insert (4, 40), Insert (5, 50),
      Insert (6, 60), Insert (7, 70), Insert (8, 80), Insert (9, 90), Erase 3]"

definition table_9 :: "(int, int) HashMap" where
  "table_9 = the (run 2 commands_9 (HashMap_new id_hash))"

text \<open>\<open>table_9\<close> after \<open>insert((25, 0))\<close>, which makes it grow to 32 slots.\<close>

definition table_10 :: "(int, int) HashMap" where
  "table_10 = fst (the (insert_hm 2 table_9 (25, 0)))"




section \<open>Proofs\<close>

subsection \<open>Probe positions\<close>

lemma probe_inj_le:
  fixes h :: nat
  assumes "i \<le> j" "j < n" "(h + i) mod n = (h + j) mod n"
  shows "i = j"
proof -
  have "h + i \<le> h + j" using assms(1) by simp
  then have "n dvd (h + j) - (h + i)"
    using assms(3) mod_eq_dvd_iff_nat [of "h + i" "h + j" n] by simp
  then have "n dvd j - i" by simp
  moreover have "j - i < n" using assms(2) by simp
  ultimately have "j - i = 0" by (meson dvd_imp_le not_less zero_less_iff_neq_zero)
  then show ?thesis using assms(1) by simp
qed

lemma probe_inj:
  fixes h :: nat
  assumes "i < n" "j < n" "(h + i) mod n = (h + j) mod n"
  shows "i = j"
proof (cases "i \<le> j")
  case True
  then show ?thesis using assms probe_inj_le by blast
next
  case False
  then have "j \<le> i" by simp
  then show ?thesis using assms probe_inj_le [of j i n h] by simp
qed

lemma probe_surj:
  fixes h :: nat
  assumes "p < n"
  shows "\<exists>i<n. (h + i) mod n = p"
proof (intro exI conjI)
  let ?i = "(p + n - h mod n) mod n"
  show "?i < n" using assms by simp
  have hn: "h mod n < n" using assms by simp
  have "(h + ?i) mod n = (h mod n + (p + n - h mod n) mod n) mod n"
    by (rule mod_add_left_eq [symmetric])
  also have "\<dots> = (h mod n + (p + n - h mod n)) mod n"
    by (rule mod_add_right_eq)
  also have "\<dots> = (p + n) mod n" using hn by simp
  also have "\<dots> = p" using assms by simp
  finally show "(h + ?i) mod n = p" .
qed

lemma probe_next:
  fixes h1 :: nat
  assumes "(hc + c) mod n = (h1 + i) mod n"
  shows "(hc + (c + 1)) mod n = (h1 + (i + 1)) mod n"
proof -
  have "Suc (hc + c) mod n = Suc (h1 + i) mod n"
    using assms by (metis mod_Suc_eq)
  then show ?thesis by simp
qed

lemma probe_dist:
  fixes h :: nat
  assumes "h < n" "d < n" "(h + d) mod n = i"
  shows "d = (i + n - h) mod n"
proof (cases "h + d < n")
  case True
  then have "i = h + d" using assms by simp
  then show ?thesis using assms by simp
next
  case False
  then have "(h + d) mod n = (h + d - n) mod n" by (simp add: le_mod_geq)
  moreover have "h + d - n < n" using assms by simp
  ultimately have "(h + d) mod n = h + d - n" by simp
  then have "i = h + d - n" using assms by simp
  then have "i + n - h = d" using assms False by simp
  then show ?thesis using assms by simp
qed

subsection \<open>One round of each scan\<close>

declare find_loop.simps [simp del] erase_loop.simps [simp del] insert_loop.simps [simp del]

lemma find_loop_end: "\<not> i < buffer_size hm \<Longrightarrow> find_loop hm key h1 i = (buffer_size hm, FellThrough)"
  by (subst find_loop.simps) simp

lemma find_loop_match:
  "i < buffer_size hm \<Longrightarrow> status (data hm ! ((h1 + i) mod buffer_size hm)) = 1 \<Longrightarrow>
   fst (keyvalue (data hm ! ((h1 + i) mod buffer_size hm))) = key \<Longrightarrow>
   find_loop hm key h1 i = ((h1 + i) mod buffer_size hm, AtMatch)"
  by (subst find_loop.simps) simp

lemma find_loop_empty:
  "i < buffer_size hm \<Longrightarrow> status (data hm ! ((h1 + i) mod buffer_size hm)) = - 1 \<Longrightarrow>
   find_loop hm key h1 i = (buffer_size hm, AtEmpty)"
  by (subst find_loop.simps) simp

lemma find_loop_skip:
  "i < buffer_size hm \<Longrightarrow> status (data hm ! ((h1 + i) mod buffer_size hm)) \<noteq> - 1 \<Longrightarrow>
   \<not> (status (data hm ! ((h1 + i) mod buffer_size hm)) = 1
      \<and> fst (keyvalue (data hm ! ((h1 + i) mod buffer_size hm))) = key) \<Longrightarrow>
   find_loop hm key h1 i = find_loop hm key h1 (i + 1)"
  by (subst find_loop.simps) (auto simp: Let_def)

lemma erase_loop_end: "\<not> i < buffer_size hm \<Longrightarrow> erase_loop hm key h1 i = (hm, FellThrough)"
  by (subst erase_loop.simps) simp

lemma erase_loop_match:
  "i < buffer_size hm \<Longrightarrow> (h1 + i) mod buffer_size hm < length (data hm) \<Longrightarrow>
   status (data hm ! ((h1 + i) mod buffer_size hm)) = 1 \<Longrightarrow>
   fst (keyvalue (data hm ! ((h1 + i) mod buffer_size hm))) = key \<Longrightarrow>
   erase_loop hm key h1 i =
     erase_loop (hm\<lparr>data := (data hm)[(h1 + i) mod buffer_size hm :=
                     (data hm ! ((h1 + i) mod buffer_size hm))\<lparr>status := 0\<rparr>],
                   cnt_dead := cnt_dead hm + 1\<rparr>) key h1 (i + 1)"
  by (subst erase_loop.simps) (auto simp: Let_def)

lemma erase_loop_empty:
  "i < buffer_size hm \<Longrightarrow> status (data hm ! ((h1 + i) mod buffer_size hm)) = - 1 \<Longrightarrow>
   erase_loop hm key h1 i = (hm, AtEmpty)"
  by (subst erase_loop.simps) (auto simp: Let_def)

lemma erase_loop_skip:
  "i < buffer_size hm \<Longrightarrow> status (data hm ! ((h1 + i) mod buffer_size hm)) \<noteq> - 1 \<Longrightarrow>
   \<not> (status (data hm ! ((h1 + i) mod buffer_size hm)) = 1
      \<and> fst (keyvalue (data hm ! ((h1 + i) mod buffer_size hm))) = key) \<Longrightarrow>
   erase_loop hm key h1 i = erase_loop hm key h1 (i + 1)"
  by (subst erase_loop.simps) (auto simp: Let_def)


lemma insert_loop_match:
  "i < buffer_size hm \<Longrightarrow> status (data hm ! ((h1 + i) mod buffer_size hm)) = 1 \<Longrightarrow>
   fst (keyvalue (data hm ! ((h1 + i) mod buffer_size hm))) = key \<Longrightarrow>
   insert_loop hm key h1 i kv c ins = (hm, (h1 + i) mod buffer_size hm, AtMatch)"
  by (subst insert_loop.simps) simp

lemma insert_loop_swap:
  "i < buffer_size hm \<Longrightarrow> (h1 + i) mod buffer_size hm < length (data hm) \<Longrightarrow>
   status (data hm ! ((h1 + i) mod buffer_size hm)) = 1 \<Longrightarrow>
   fst (keyvalue (data hm ! ((h1 + i) mod buffer_size hm))) \<noteq> key \<Longrightarrow>
   dist_to_ideal (data hm ! ((h1 + i) mod buffer_size hm)) < c \<Longrightarrow>
   insert_loop hm key h1 i kv c ins =
     insert_loop (hm\<lparr>data := (data hm)[(h1 + i) mod buffer_size hm :=
                      (data hm ! ((h1 + i) mod buffer_size hm))\<lparr>keyvalue := kv, dist_to_ideal := c\<rparr>]\<rparr>)
       key h1 (i + 1) (keyvalue (data hm ! ((h1 + i) mod buffer_size hm)))
       (dist_to_ideal (data hm ! ((h1 + i) mod buffer_size hm)) + 1)
       (if ins = - 1 then static_cast_int ((h1 + i) mod buffer_size hm) else ins)"
  by (subst insert_loop.simps) (auto simp: Let_def)

lemma insert_loop_place:
  "i < buffer_size hm \<Longrightarrow> status (data hm ! ((h1 + i) mod buffer_size hm)) = - 1 \<Longrightarrow>
   insert_loop hm key h1 i kv c ins =
     (hm\<lparr>data := (data hm)[(h1 + i) mod buffer_size hm := Node_of kv c],
         cnt_all := cnt_all hm + 1\<rparr>,
      size_t_of_int (if ins = - 1 then static_cast_int ((h1 + i) mod buffer_size hm) else ins),
      AtEmpty)"
  by (subst insert_loop.simps) (auto simp: Let_def)

lemma insert_loop_skip:
  "i < buffer_size hm \<Longrightarrow> status (data hm ! ((h1 + i) mod buffer_size hm)) \<noteq> - 1 \<Longrightarrow>
   \<not> (status (data hm ! ((h1 + i) mod buffer_size hm)) = 1
      \<and> fst (keyvalue (data hm ! ((h1 + i) mod buffer_size hm))) = key) \<Longrightarrow>
   \<not> (status (data hm ! ((h1 + i) mod buffer_size hm)) = 1
      \<and> dist_to_ideal (data hm ! ((h1 + i) mod buffer_size hm)) < c) \<Longrightarrow>
   insert_loop hm key h1 i kv c ins = insert_loop hm key h1 (i + 1) kv (c + 1) ins"
  by (subst insert_loop.simps) (auto simp: Let_def)

subsection \<open>Slot arrays under an update\<close>

lemma chain_ok_update:
  assumes "chain_ok xs hc c"
    and "status nd \<noteq> - 1"
    and "status nd = 1 \<Longrightarrow>
           status (xs ! x) = - 1
         \<or> (status (xs ! x) = 1 \<and> dist_to_ideal (xs ! x) \<le> dist_to_ideal nd)"
  shows "chain_ok (xs[x := nd]) hc c"
proof (cases "x < length xs")
  case False
  then show ?thesis using assms(1) by (simp add: list_update_beyond)
next
  case True
  show ?thesis
    unfolding chain_ok_def
  proof (intro allI impI)
    fix j assume j: "j < c"
    let ?q = "(hc + j) mod length xs"
    have q: "status (xs ! ?q) \<noteq> - 1"
      "status (xs ! ?q) = 1 \<longrightarrow> j \<le> dist_to_ideal (xs ! ?q)"
      using assms(1) j by (auto simp: chain_ok_def)
    show "status (xs[x := nd] ! ((hc + j) mod length (xs[x := nd]))) \<noteq> - 1 \<and>
          (status (xs[x := nd] ! ((hc + j) mod length (xs[x := nd]))) = 1 \<longrightarrow>
           j \<le> dist_to_ideal (xs[x := nd] ! ((hc + j) mod length (xs[x := nd]))))"
    proof (cases "?q = x")
      case True
      then show ?thesis using q assms(2,3) \<open>x < length xs\<close> by auto
    next
      case False
      then show ?thesis using q by simp
    qed
  qed
qed

lemma chain_ok_Suc:
  "chain_ok xs hc (c + 1) \<longleftrightarrow>
     chain_ok xs hc c
   \<and> status (xs ! ((hc + c) mod length xs)) \<noteq> - 1
   \<and> (status (xs ! ((hc + c) mod length xs)) = 1
        \<longrightarrow> c \<le> dist_to_ideal (xs ! ((hc + c) mod length xs)))"
  by (auto simp: chain_ok_def less_Suc_eq)

lemma chain_ok_zero: "chain_ok xs hc 0"
  by (simp add: chain_ok_def)

lemma live_iff:
  "kv \<in> live xs \<longleftrightarrow> (\<exists>p<length xs. status (xs ! p) = 1 \<and> keyvalue (xs ! p) = kv)"
  by (auto simp: live_def)

lemma key_live_iff:
  "k \<in> fst ` live xs \<longleftrightarrow> (\<exists>p<length xs. status (xs ! p) = 1 \<and> fst (keyvalue (xs ! p)) = k)"
proof
  assume "k \<in> fst ` live xs"
  then obtain kv where "kv \<in> live xs" "fst kv = k" by auto
  then show "\<exists>p<length xs. status (xs ! p) = 1 \<and> fst (keyvalue (xs ! p)) = k"
    unfolding live_iff by auto
next
  assume "\<exists>p<length xs. status (xs ! p) = 1 \<and> fst (keyvalue (xs ! p)) = k"
  then obtain p where p: "p < length xs" "status (xs ! p) = 1" "fst (keyvalue (xs ! p)) = k"
    by auto
  then have "keyvalue (xs ! p) \<in> live xs" unfolding live_iff by auto
  then show "k \<in> fst ` live xs" using p(3) by (metis image_eqI)
qed

lemma live_update_occ:
  assumes "x < length xs" "keys_unique xs" "status (xs ! x) = 1" "status nd = 1"
  shows "live (xs[x := nd]) = insert (keyvalue nd) (live xs - {keyvalue (xs ! x)})"
proof (rule set_eqI)
  fix kv
  show "kv \<in> live (xs[x := nd]) \<longleftrightarrow> kv \<in> insert (keyvalue nd) (live xs - {keyvalue (xs ! x)})"
  proof
    assume "kv \<in> live (xs[x := nd])"
    then obtain p where p: "p < length xs" "status (xs[x := nd] ! p) = 1"
      "keyvalue (xs[x := nd] ! p) = kv"
      by (auto simp: live_iff)
    show "kv \<in> insert (keyvalue nd) (live xs - {keyvalue (xs ! x)})"
    proof (cases "p = x")
      case True
      then show ?thesis using p assms(1) by simp
    next
      case False
      then have px: "status (xs ! p) = 1" "keyvalue (xs ! p) = kv" using p by simp_all
      have "keyvalue (xs ! p) \<noteq> keyvalue (xs ! x)"
        using assms(1,2,3) p(1) px(1) False unfolding keys_unique_def by metis
      then show ?thesis using px p(1) by (auto simp: live_iff)
    qed
  next
    assume a: "kv \<in> insert (keyvalue nd) (live xs - {keyvalue (xs ! x)})"
    show "kv \<in> live (xs[x := nd])"
    proof (cases "kv = keyvalue nd")
      case True
      then show ?thesis using assms(1,4) by (auto simp: live_iff intro!: exI [of _ x])
    next
      case False
      then obtain p where p: "p < length xs" "status (xs ! p) = 1" "keyvalue (xs ! p) = kv"
        "kv \<noteq> keyvalue (xs ! x)"
        using a by (auto simp: live_iff)
      then have "p \<noteq> x" by auto
      then show ?thesis using p by (auto simp: live_iff intro!: exI [of _ p])
    qed
  qed
qed

lemma live_update_free:
  assumes "x < length xs" "status (xs ! x) \<noteq> 1" "status nd = 1"
  shows "live (xs[x := nd]) = insert (keyvalue nd) (live xs)"
proof (rule set_eqI)
  fix kv
  show "kv \<in> live (xs[x := nd]) \<longleftrightarrow> kv \<in> insert (keyvalue nd) (live xs)"
  proof
    assume "kv \<in> live (xs[x := nd])"
    then obtain p where p: "p < length xs" "status (xs[x := nd] ! p) = 1"
      "keyvalue (xs[x := nd] ! p) = kv"
      by (auto simp: live_iff)
    show "kv \<in> insert (keyvalue nd) (live xs)"
    proof (cases "p = x")
      case True
      then show ?thesis using p assms(1) by simp
    next
      case False
      then show ?thesis using p by (auto simp: live_iff)
    qed
  next
    assume a: "kv \<in> insert (keyvalue nd) (live xs)"
    show "kv \<in> live (xs[x := nd])"
    proof (cases "kv = keyvalue nd")
      case True
      then show ?thesis using assms(1,3) by (auto simp: live_iff intro!: exI [of _ x])
    next
      case False
      then obtain p where p: "p < length xs" "status (xs ! p) = 1" "keyvalue (xs ! p) = kv"
        using a by (auto simp: live_iff)
      then have "p \<noteq> x" using assms(2) by auto
      then show ?thesis using p by (auto simp: live_iff intro!: exI [of _ p])
    qed
  qed
qed

lemma live_update_tomb:
  assumes "x < length xs" "keys_unique xs" "status (xs ! x) = 1" "status nd \<noteq> 1"
  shows "live (xs[x := nd]) = live xs - {keyvalue (xs ! x)}"
proof (rule set_eqI)
  fix kv
  show "kv \<in> live (xs[x := nd]) \<longleftrightarrow> kv \<in> live xs - {keyvalue (xs ! x)}"
  proof
    assume "kv \<in> live (xs[x := nd])"
    then obtain p where p: "p < length xs" "status (xs[x := nd] ! p) = 1"
      "keyvalue (xs[x := nd] ! p) = kv"
      by (auto simp: live_iff)
    then have "p \<noteq> x" using assms(1,4) by auto
    then have px: "status (xs ! p) = 1" "keyvalue (xs ! p) = kv" using p by simp_all
    have "keyvalue (xs ! p) \<noteq> keyvalue (xs ! x)"
      using assms(1,2,3) p(1) px(1) \<open>p \<noteq> x\<close> unfolding keys_unique_def by metis
    then show "kv \<in> live xs - {keyvalue (xs ! x)}" using px p(1) by (auto simp: live_iff)
  next
    assume "kv \<in> live xs - {keyvalue (xs ! x)}"
    then obtain p where p: "p < length xs" "status (xs ! p) = 1" "keyvalue (xs ! p) = kv"
      "kv \<noteq> keyvalue (xs ! x)"
      by (auto simp: live_iff)
    then have "p \<noteq> x" by auto
    then show "kv \<in> live (xs[x := nd])" using p by (auto simp: live_iff intro!: exI [of _ p])
  qed
qed

lemma nonempty_slots_update:
  assumes "x < length xs"
  shows "nonempty_slots (xs[x := nd]) =
           (if status nd \<noteq> - 1 then insert x (nonempty_slots xs) else nonempty_slots xs - {x})"
  using assms by (auto simp: nonempty_slots_def nth_list_update)

lemma dead_slots_update:
  assumes "x < length xs"
  shows "dead_slots (xs[x := nd]) =
           (if status nd = 0 then insert x (dead_slots xs) else dead_slots xs - {x})"
  using assms by (auto simp: dead_slots_def nth_list_update)

lemma finite_nonempty_slots [simp]: "finite (nonempty_slots xs)"
  by (simp add: nonempty_slots_def)

lemma finite_dead_slots [simp]: "finite (dead_slots xs)"
  by (simp add: dead_slots_def)

lemma statuses_ok_update:
  "statuses_ok xs \<Longrightarrow> status nd \<in> {- 1, 0, 1} \<Longrightarrow> statuses_ok (xs[x := nd])"
  by (cases "x < length xs") (auto simp: statuses_ok_def nth_list_update list_update_beyond)

lemma keys_unique_update:
  assumes "keys_unique xs"
    and "status nd = 1 \<Longrightarrow>
           \<forall>q<length xs. q \<noteq> x \<longrightarrow> status (xs ! q) = 1
              \<longrightarrow> fst (keyvalue (xs ! q)) \<noteq> fst (keyvalue nd)"
  shows "keys_unique (xs[x := nd])"
proof (cases "x < length xs")
  case False
  then show ?thesis using assms(1) by (simp add: list_update_beyond)
next
  case True
  show ?thesis
    unfolding keys_unique_def
  proof (intro allI impI)
    fix p q
    assume p: "p < length (xs[x := nd])" and q: "q < length (xs[x := nd])"
      and h: "status (xs[x := nd] ! p) = 1 \<and> status (xs[x := nd] ! q) = 1 \<and>
              fst (keyvalue (xs[x := nd] ! p)) = fst (keyvalue (xs[x := nd] ! q))"
    show "p = q"
    proof (cases "p = x")
      case px: True
      show ?thesis
      proof (cases "q = x")
        case True
        then show ?thesis using px by simp
      next
        case False
        then show ?thesis using px h q True assms(2) by (auto simp: nth_list_update)
      qed
    next
      case px: False
      show ?thesis
      proof (cases "q = x")
        case True
        then show ?thesis using px h p \<open>x < length xs\<close> assms(2) by (auto simp: nth_list_update)
      next
        case False
        then have "status (xs ! p) = 1" "status (xs ! q) = 1"
          "fst (keyvalue (xs ! p)) = fst (keyvalue (xs ! q))"
          using px h by simp_all
        then show ?thesis using assms(1) p q unfolding keys_unique_def by simp
      qed
    qed
  qed
qed

lemma keys_unique_update_fresh:
  assumes "keys_unique xs" "fst (keyvalue nd) \<notin> fst ` live xs"
  shows "keys_unique (xs[x := nd])"
  using assms(1)
proof (rule keys_unique_update)
  show "\<forall>q<length xs. q \<noteq> x \<longrightarrow> status (xs ! q) = 1
          \<longrightarrow> fst (keyvalue (xs ! q)) \<noteq> fst (keyvalue nd)"
    using assms(2) unfolding key_live_iff by blast
qed

lemma slots_ok_update:
  assumes so: "slots_ok f xs"
    and x: "x < length xs"
    and ne: "status nd \<noteq> - 1"
    and mono: "status nd = 1 \<Longrightarrow>
           status (xs ! x) = - 1
         \<or> (status (xs ! x) = 1 \<and> dist_to_ideal (xs ! x) \<le> dist_to_ideal nd)"
    and new: "status nd = 1 \<Longrightarrow>
           dist_to_ideal nd < length xs
         \<and> (f (fst (keyvalue nd)) mod length xs + dist_to_ideal nd) mod length xs = x
         \<and> chain_ok xs (f (fst (keyvalue nd)) mod length xs) (dist_to_ideal nd)"
  shows "slots_ok f (xs[x := nd])"
proof -
  have upd: "chain_ok (xs[x := nd]) hc c" if "chain_ok xs hc c" for hc c
    using that ne mono by (rule chain_ok_update)
  show ?thesis
    unfolding slots_ok_def
  proof (intro allI impI)
    fix p
    assume p: "p < length (xs[x := nd])" and po: "status (xs[x := nd] ! p) = 1"
    let ?ys = "xs[x := nd]"
    show "dist_to_ideal (?ys ! p) < length ?ys
        \<and> (f (fst (keyvalue (?ys ! p))) mod length ?ys + dist_to_ideal (?ys ! p)) mod length ?ys = p
        \<and> chain_ok ?ys (f (fst (keyvalue (?ys ! p))) mod length ?ys) (dist_to_ideal (?ys ! p))"
    proof (cases "p = x")
      case True
      then have eq: "?ys ! p = nd" using x by simp
      then have "status nd = 1" using po by simp
      from new [OF this] show ?thesis using eq True upd by simp
    next
      case False
      then have eq: "?ys ! p = xs ! p" by simp
      then have "status (xs ! p) = 1" using po by simp
      then have "dist_to_ideal (xs ! p) < length xs
        \<and> (f (fst (keyvalue (xs ! p))) mod length xs + dist_to_ideal (xs ! p)) mod length xs = p
        \<and> chain_ok xs (f (fst (keyvalue (xs ! p))) mod length xs) (dist_to_ideal (xs ! p))"
        using so p unfolding slots_ok_def by simp
      then show ?thesis using eq upd by simp
    qed
  qed
qed

subsection \<open>The scan of insert for a key that the table does not hold\<close>

lemma carry_ok_swap:
  assumes co: "carry_ok f xs key h1 i kv c"
    and i: "i < length xs"
    and x: "x = (h1 + i) mod length xs"
    and occ: "status (xs ! x) = 1"
    and lt: "dist_to_ideal (xs ! x) < c"
  shows "carry_ok f (xs[x := (xs ! x)\<lparr>keyvalue := kv, dist_to_ideal := c\<rparr>]) key h1 (i + 1)
           (keyvalue (xs ! x)) (dist_to_ideal (xs ! x) + 1)"
proof -
  define nd where "nd = (xs ! x)\<lparr>keyvalue := kv, dist_to_ideal := c\<rparr>"
  let ?n = "length xs"
  let ?ys = "xs[x := nd]"
  let ?kx = "fst (keyvalue (xs ! x))"
  let ?dx = "dist_to_ideal (xs ! x)"
  have n0: "0 < ?n" using i by (cases xs) simp_all
  then have xn: "x < ?n" using x by simp
  have nd: "status nd = 1" "keyvalue nd = kv" "dist_to_ideal nd = c"
    by (simp_all add: nd_def occ)
  from co have so: "slots_ok f xs" and ku: "keys_unique xs" and ci: "c \<le> i"
    and al: "(f (fst kv) mod ?n + c) mod ?n = (h1 + i) mod ?n"
    and ch: "chain_ok xs (f (fst kv) mod ?n) c"
    and ab: "fst kv \<notin> fst ` live xs"
    and ko: "\<forall>p<?n. status (xs ! p) = 1 \<and> fst (keyvalue (xs ! p)) = key
               \<longrightarrow> (\<exists>i0<i. p = (h1 + i0) mod ?n)"
    and nonem: "\<forall>i0<i. status (xs ! ((h1 + i0) mod ?n)) \<noteq> - 1"
    by (simp_all add: carry_ok_def)
  have st: "status (?ys ! p) = status (xs ! p)" if "p < ?n" for p
    using xn occ nd by (cases "p = x") simp_all
  have upd: "chain_ok ?ys hc c'" if "chain_ok xs hc c'" for hc c'
    using that by (rule chain_ok_update) (use nd occ lt in auto)
  have sx: "?dx < ?n" "(f ?kx mod ?n + ?dx) mod ?n = x" "chain_ok xs (f ?kx mod ?n) ?dx"
    using so xn occ by (auto simp: slots_ok_def)
  have 1: "slots_ok f ?ys"
    using so xn
  proof (rule slots_ok_update)
    show "status nd \<noteq> - 1" using nd by simp
    show "status (xs ! x) = - 1 \<or> status (xs ! x) = 1 \<and> dist_to_ideal (xs ! x) \<le> dist_to_ideal nd"
      using occ lt nd by simp
    show "dist_to_ideal nd < ?n
         \<and> (f (fst (keyvalue nd)) mod ?n + dist_to_ideal nd) mod ?n = x
         \<and> chain_ok xs (f (fst (keyvalue nd)) mod ?n) (dist_to_ideal nd)"
      using nd ci i al x ch by simp
  qed
  have 2: "keys_unique ?ys"
    using ku ab nd by (simp add: keys_unique_update_fresh)
  have 3: "?dx + 1 \<le> i + 1" using lt ci by simp
  have 4: "(f ?kx mod length ?ys + (?dx + 1)) mod length ?ys = (h1 + (i + 1)) mod length ?ys"
    using probe_next [of "f ?kx mod ?n" ?dx ?n h1 i] sx(2) x by simp
  have 5: "chain_ok ?ys (f ?kx mod length ?ys) (?dx + 1)"
    unfolding chain_ok_Suc using upd [OF sx(3)] sx(2) xn nd lt by simp
  have kx_live: "?kx \<in> fst ` live xs"
    unfolding key_live_iff using xn occ by blast
  have 6: "?kx \<notin> fst ` live ?ys"
  proof
    assume "?kx \<in> fst ` live ?ys"
    then obtain p where p: "p < ?n" "status (?ys ! p) = 1" "fst (keyvalue (?ys ! p)) = ?kx"
      unfolding key_live_iff by auto
    show False
    proof (cases "p = x")
      case True
      then have "fst kv = ?kx" using p xn nd by simp
      then show False using ab kx_live by simp
    next
      case False
      then have "status (xs ! p) = 1" "fst (keyvalue (xs ! p)) = ?kx" using p by simp_all
      then have "p = x" using ku p(1) xn occ unfolding keys_unique_def by blast
      then show False using False by simp
    qed
  qed
  have 7: "\<forall>p<length ?ys. status (?ys ! p) = 1 \<and> fst (keyvalue (?ys ! p)) = key
               \<longrightarrow> (\<exists>i0<i + 1. p = (h1 + i0) mod length ?ys)"
  proof (intro allI impI)
    fix p assume p: "p < length ?ys"
      and h: "status (?ys ! p) = 1 \<and> fst (keyvalue (?ys ! p)) = key"
    show "\<exists>i0<i + 1. p = (h1 + i0) mod length ?ys"
    proof (cases "p = x")
      case True
      then show ?thesis using x by auto
    next
      case False
      then have "status (xs ! p) = 1 \<and> fst (keyvalue (xs ! p)) = key" using h by simp
      then obtain i0 where "i0 < i" "p = (h1 + i0) mod ?n" using ko p by auto
      then show ?thesis by (intro exI [of _ i0]) simp
    qed
  qed
  have 8: "\<forall>i0<i + 1. status (?ys ! ((h1 + i0) mod length ?ys)) \<noteq> - 1"
  proof (intro allI impI)
    fix i0 assume "i0 < i + 1"
    then have "i0 < i \<or> i0 = i" by auto
    moreover have "(h1 + i0) mod ?n < ?n" using n0 by simp
    ultimately show "status (?ys ! ((h1 + i0) mod length ?ys)) \<noteq> - 1"
      using nonem st occ x by auto
  qed
  show ?thesis
    unfolding carry_ok_def nd_def [symmetric] using 1 2 3 4 5 6 7 8 by blast
qed

lemma carry_ok_skip:
  assumes co: "carry_ok f xs key h1 i kv c"
    and x: "x = (h1 + i) mod length xs"
    and ne: "status (xs ! x) \<noteq> - 1"
    and ge: "status (xs ! x) = 1 \<longrightarrow> c \<le> dist_to_ideal (xs ! x)"
  shows "carry_ok f xs key h1 (i + 1) kv (c + 1)"
proof -
  let ?n = "length xs"
  from co have so: "slots_ok f xs" and ku: "keys_unique xs" and ci: "c \<le> i"
    and al: "(f (fst kv) mod ?n + c) mod ?n = (h1 + i) mod ?n"
    and ch: "chain_ok xs (f (fst kv) mod ?n) c"
    and ab: "fst kv \<notin> fst ` live xs"
    and ko: "\<forall>p<?n. status (xs ! p) = 1 \<and> fst (keyvalue (xs ! p)) = key
               \<longrightarrow> (\<exists>i0<i. p = (h1 + i0) mod ?n)"
    and nonem: "\<forall>i0<i. status (xs ! ((h1 + i0) mod ?n)) \<noteq> - 1"
    by (simp_all add: carry_ok_def)
  have 4: "(f (fst kv) mod ?n + (c + 1)) mod ?n = (h1 + (i + 1)) mod ?n"
    using al by (rule probe_next)
  have 5: "chain_ok xs (f (fst kv) mod ?n) (c + 1)"
    unfolding chain_ok_Suc using ch al x ne ge by simp
  have 7: "\<forall>p<?n. status (xs ! p) = 1 \<and> fst (keyvalue (xs ! p)) = key
               \<longrightarrow> (\<exists>i0<i + 1. p = (h1 + i0) mod ?n)"
  proof (intro allI impI)
    fix p assume "p < ?n" "status (xs ! p) = 1 \<and> fst (keyvalue (xs ! p)) = key"
    then obtain i0 where "i0 < i" "p = (h1 + i0) mod ?n" using ko by auto
    then show "\<exists>i0<i + 1. p = (h1 + i0) mod ?n" by (intro exI [of _ i0]) simp
  qed
  have 8: "\<forall>i0<i + 1. status (xs ! ((h1 + i0) mod ?n)) \<noteq> - 1"
  proof (intro allI impI)
    fix i0 assume "i0 < i + 1"
    then have "i0 < i \<or> i0 = i" by auto
    then show "status (xs ! ((h1 + i0) mod ?n)) \<noteq> - 1"
      using nonem ne x by auto
  qed
  show ?thesis
    unfolding carry_ok_def using so ku ci 4 5 ab 7 8 by simp
qed

lemma carry_ok_place:
  assumes co: "carry_ok f xs key h1 i kv c"
    and i: "i < length xs"
    and x: "x = (h1 + i) mod length xs"
    and em: "status (xs ! x) = - 1"
  shows "slots_ok f (xs[x := Node_of kv c])"
    and "keys_unique (xs[x := Node_of kv c])"
    and "live (xs[x := Node_of kv c]) = insert kv (live xs)"
proof -
  let ?n = "length xs"
  have n0: "0 < ?n" using i by (cases xs) simp_all
  then have xn: "x < ?n" using x by simp
  from co have so: "slots_ok f xs" and ku: "keys_unique xs" and ci: "c \<le> i"
    and al: "(f (fst kv) mod ?n + c) mod ?n = (h1 + i) mod ?n"
    and ch: "chain_ok xs (f (fst kv) mod ?n) c"
    and ab: "fst kv \<notin> fst ` live xs"
    by (simp_all add: carry_ok_def)
  show "slots_ok f (xs[x := Node_of kv c])"
    using so xn
  proof (rule slots_ok_update)
    show "status (Node_of kv c) \<noteq> - 1" by (simp add: Node_of_def)
    show "status (xs ! x) = - 1 \<or>
          status (xs ! x) = 1 \<and> dist_to_ideal (xs ! x) \<le> dist_to_ideal (Node_of kv c)"
      using em by simp
    show "dist_to_ideal (Node_of kv c) < ?n
         \<and> (f (fst (keyvalue (Node_of kv c))) mod ?n + dist_to_ideal (Node_of kv c)) mod ?n = x
         \<and> chain_ok xs (f (fst (keyvalue (Node_of kv c))) mod ?n) (dist_to_ideal (Node_of kv c))"
      using ci i al x ch by (simp add: Node_of_def)
  qed
  show "keys_unique (xs[x := Node_of kv c])"
    using ku ab by (simp add: keys_unique_update_fresh Node_of_def)
  show "live (xs[x := Node_of kv c]) = insert kv (live xs)"
    using live_update_free [of x xs "Node_of kv c"] xn em by (simp add: Node_of_def)
qed

lemma all_slots_nonempty:
  assumes "\<forall>i0<length xs. status (xs ! ((h1 + i0) mod length xs)) \<noteq> - 1"
  shows "card (nonempty_slots xs) = length xs"
proof -
  have "nonempty_slots xs = {..<length xs}"
  proof (rule set_eqI)
    fix p
    show "p \<in> nonempty_slots xs \<longleftrightarrow> p \<in> {..<length xs}"
    proof
      assume "p \<in> nonempty_slots xs"
      then show "p \<in> {..<length xs}" by (simp add: nonempty_slots_def)
    next
      assume "p \<in> {..<length xs}"
      then have p: "p < length xs" by simp
      then obtain i0 where "i0 < length xs" "(h1 + i0) mod length xs = p"
        using probe_surj [of p "length xs" h1] by auto
      then have "status (xs ! p) \<noteq> - 1" using assms by auto
      then show "p \<in> nonempty_slots xs" using p by (simp add: nonempty_slots_def)
    qed
  qed
  then show ?thesis by simp
qed

lemma insert_back: "a \<in> S \<Longrightarrow> insert a (insert b (S - {a})) = insert b S"
  by blast

lemma insert_loop_absent:
  assumes "carry_ok (hasher hm) (data hm) key h1 i kv c"
    and "length (data hm) = buffer_size hm"
    and "card (nonempty_slots (data hm)) < buffer_size hm"
    and "insert_loop hm key h1 i kv c ins = (hm', it, ex)"
  shows "ex = AtEmpty \<and> inserted hm kv hm'"
  using assms
proof (induction "buffer_size hm - i" arbitrary: hm i kv c ins)
  case 0
  then have ge: "\<not> i < buffer_size hm" by simp
  have "\<forall>i0<length (data hm). status (data hm ! ((h1 + i0) mod length (data hm))) \<noteq> - 1"
    using "0.prems"(1,2) ge by (simp add: carry_ok_def)
  then have "card (nonempty_slots (data hm)) = length (data hm)"
    by (rule all_slots_nonempty)
  then show ?case using "0.prems"(2,3) by simp
next
  case (Suc m)
  let ?n = "buffer_size hm"
  let ?xs = "data hm"
  let ?x = "(h1 + i) mod ?n"
  have i: "i < ?n" using Suc.hyps(2) by simp
  have len: "length ?xs = ?n" using Suc.prems(2) .
  have xn: "?x < length ?xs" using i len by simp
  note co = Suc.prems(1)
  have no_match: "\<not> (status (?xs ! ?x) = 1 \<and> fst (keyvalue (?xs ! ?x)) = key)"
  proof
    assume "status (?xs ! ?x) = 1 \<and> fst (keyvalue (?xs ! ?x)) = key"
    then obtain i0 where i0: "i0 < i" "?x = (h1 + i0) mod ?n"
      using co xn len unfolding carry_ok_def by metis
    then have "i = i0" using probe_inj [of i ?n i0 h1] i by simp
    then show False using i0 by simp
  qed
  consider (swap) "status (?xs ! ?x) = 1" "dist_to_ideal (?xs ! ?x) < c"
    | (place) "status (?xs ! ?x) = - 1"
    | (skip) "status (?xs ! ?x) \<noteq> - 1" "status (?xs ! ?x) = 1 \<longrightarrow> c \<le> dist_to_ideal (?xs ! ?x)"
    by fastforce
  then show ?case
  proof cases
    case swap
    let ?nd = "(?xs ! ?x)\<lparr>keyvalue := kv, dist_to_ideal := c\<rparr>"
    let ?hm1 = "hm\<lparr>data := ?xs[?x := ?nd]\<rparr>"
    let ?kvx = "keyvalue (?xs ! ?x)"
    have key_ne: "fst ?kvx \<noteq> key" using no_match swap(1) by simp
    have eq: "insert_loop hm key h1 i kv c ins =
        insert_loop ?hm1 key h1 (i + 1) ?kvx (dist_to_ideal (?xs ! ?x) + 1)
          (if ins = - 1 then static_cast_int ?x else ins)"
      using i xn swap(1) key_ne swap(2) by (rule insert_loop_swap)
    have co1: "carry_ok (hasher ?hm1) (data ?hm1) key h1 (i + 1) ?kvx (dist_to_ideal (?xs ! ?x) + 1)"
      using carry_ok_swap [OF co, of ?x] i len swap by simp
    have st_nd: "status ?nd = 1" using swap(1) by simp
    have x_ne: "?x \<in> nonempty_slots ?xs" using xn swap(1) by (simp add: nonempty_slots_def)
    have x_nd: "?x \<notin> dead_slots ?xs" using swap(1) by (simp add: dead_slots_def)
    have ne1: "nonempty_slots (data ?hm1) = nonempty_slots ?xs"
      using nonempty_slots_update [OF xn, of ?nd] st_nd x_ne by auto
    have de1: "dead_slots (data ?hm1) = dead_slots ?xs"
      using dead_slots_update [OF xn, of ?nd] st_nd x_nd by auto
    have ins1: "ex = AtEmpty \<and> inserted ?hm1 ?kvx hm'"
    proof (rule Suc.hyps(1))
      show "m = buffer_size ?hm1 - (i + 1)" using Suc.hyps(2) by simp
      show "carry_ok (hasher ?hm1) (data ?hm1) key h1 (i + 1) ?kvx (dist_to_ideal (?xs ! ?x) + 1)"
        by (rule co1)
      show "length (data ?hm1) = buffer_size ?hm1" using len by simp
      show "card (nonempty_slots (data ?hm1)) < buffer_size ?hm1"
        using ne1 Suc.prems(3) by simp
      show "insert_loop ?hm1 key h1 (i + 1) ?kvx (dist_to_ideal (?xs ! ?x) + 1)
              (if ins = - 1 then static_cast_int ?x else ins) = (hm', it, ex)"
        using eq Suc.prems(4) by simp
    qed
    have ku: "keys_unique ?xs" using co by (simp add: carry_ok_def)
    have live1: "live (data ?hm1) = insert kv (live ?xs - {?kvx})"
      using live_update_occ [OF xn ku swap(1) st_nd] by simp
    have kvx_live: "?kvx \<in> live ?xs" unfolding live_iff using xn swap(1) by blast
    have live': "insert ?kvx (live (data ?hm1)) = insert kv (live ?xs)"
      unfolding live1 using kvx_live by (rule insert_back)
    have st1: "status (data ?hm1 ! p) = status (?xs ! p)" for p
      using xn swap(1) by (cases "p = ?x") simp_all
    have sok: "statuses_ok ?xs \<Longrightarrow> statuses_ok (data ?hm1)"
      using statuses_ok_update [of ?xs ?nd ?x] st_nd by simp
    show ?thesis
      using ins1 live' ne1 de1 st1 sok unfolding inserted_def by (simp add: len)
  next
    case place
    have eq: "insert_loop hm key h1 i kv c ins =
       (hm\<lparr>data := ?xs[?x := Node_of kv c], cnt_all := cnt_all hm + 1\<rparr>,
        size_t_of_int (if ins = - 1 then static_cast_int ?x else ins), AtEmpty)"
      using i place by (rule insert_loop_place)
    then have hm': "hm' = hm\<lparr>data := ?xs[?x := Node_of kv c], cnt_all := cnt_all hm + 1\<rparr>"
      and ex: "ex = AtEmpty"
      using Suc.prems(4) by simp_all
    have i': "i < length ?xs" using i len by simp
    have x': "?x = (h1 + i) mod length ?xs" using len by simp
    note pl = carry_ok_place [OF co i' x' place]
    have ne1: "nonempty_slots (?xs[?x := Node_of kv c]) = insert ?x (nonempty_slots ?xs)"
      using nonempty_slots_update [OF xn, of "Node_of kv c"] by (simp add: Node_of_def)
    have de1: "dead_slots (?xs[?x := Node_of kv c]) = dead_slots ?xs"
      using dead_slots_update [OF xn, of "Node_of kv c"] place
      by (auto simp: Node_of_def dead_slots_def)
    have sok: "statuses_ok ?xs \<Longrightarrow> statuses_ok (?xs[?x := Node_of kv c])"
      by (rule statuses_ok_update) (simp_all add: Node_of_def)
    have "\<exists>x<length ?xs. status (?xs ! x) = - 1
          \<and> nonempty_slots (?xs[?x := Node_of kv c]) = insert x (nonempty_slots ?xs)"
      using xn place ne1 by blast
    then show ?thesis
      using ex pl de1 sok unfolding inserted_def hm' by simp
  next
    case skip
    have eq: "insert_loop hm key h1 i kv c ins = insert_loop hm key h1 (i + 1) kv (c + 1) ins"
      using i skip(1) no_match by (rule insert_loop_skip) (use skip(2) in auto)
    have x': "?x = (h1 + i) mod length ?xs" using len by simp
    show ?thesis
    proof (rule Suc.hyps(1))
      show "m = buffer_size hm - (i + 1)" using Suc.hyps(2) by simp
      show "carry_ok (hasher hm) (data hm) key h1 (i + 1) kv (c + 1)"
        using co x' skip by (rule carry_ok_skip)
      show "length (data hm) = buffer_size hm" by (rule len)
      show "card (nonempty_slots (data hm)) < buffer_size hm" by (rule Suc.prems(3))
      show "insert_loop hm key h1 (i + 1) kv (c + 1) ins = (hm', it, ex)"
        using eq Suc.prems(4) by simp
    qed
  qed
qed

subsection \<open>Scanning for a key that the table holds\<close>

lemma present_scan:
  assumes so: "slots_ok f xs" and ku: "keys_unique xs"
    and p: "p < length xs" and occ: "status (xs ! p) = 1"
    and h1: "h1 = f (fst (keyvalue (xs ! p))) mod length xs"
  shows "dist_to_ideal (xs ! p) < length xs"
    and "(h1 + dist_to_ideal (xs ! p)) mod length xs = p"
    and "i < dist_to_ideal (xs ! p) \<Longrightarrow> status (xs ! ((h1 + i) mod length xs)) \<noteq> - 1"
    and "i < dist_to_ideal (xs ! p) \<Longrightarrow>
           \<not> (status (xs ! ((h1 + i) mod length xs)) = 1
              \<and> fst (keyvalue (xs ! ((h1 + i) mod length xs))) = fst (keyvalue (xs ! p)))"
    and "i < dist_to_ideal (xs ! p) \<Longrightarrow>
           \<not> (status (xs ! ((h1 + i) mod length xs)) = 1
              \<and> dist_to_ideal (xs ! ((h1 + i) mod length xs)) < i)"
proof -
  let ?n = "length xs"
  let ?d = "dist_to_ideal (xs ! p)"
  have sp: "?d < ?n" "(h1 + ?d) mod ?n = p" "chain_ok xs h1 ?d"
    using so p occ h1 by (auto simp: slots_ok_def)
  show "?d < ?n" "(h1 + ?d) mod ?n = p" using sp by simp_all
  have n0: "0 < ?n" using p by (cases xs) simp_all
  {
    assume i: "i < ?d"
    let ?x = "(h1 + i) mod ?n"
    have xn: "?x < ?n" using n0 by simp
    have c: "status (xs ! ?x) \<noteq> - 1" "status (xs ! ?x) = 1 \<longrightarrow> i \<le> dist_to_ideal (xs ! ?x)"
      using sp(3) i by (auto simp: chain_ok_def)
    show "status (xs ! ?x) \<noteq> - 1" using c by simp
    show "\<not> (status (xs ! ?x) = 1 \<and> dist_to_ideal (xs ! ?x) < i)" using c by auto
    show "\<not> (status (xs ! ?x) = 1 \<and> fst (keyvalue (xs ! ?x)) = fst (keyvalue (xs ! p)))"
    proof
      assume "status (xs ! ?x) = 1 \<and> fst (keyvalue (xs ! ?x)) = fst (keyvalue (xs ! p))"
      then have "?x = p" using ku xn p occ unfolding keys_unique_def by blast
      then have "(h1 + i) mod ?n = (h1 + ?d) mod ?n" using sp(2) by simp
      then have "i = ?d" using probe_inj [of i ?n ?d h1] i sp(1) by simp
      then show False using i by simp
    qed
  }
qed

lemma find_loop_present_aux:
  assumes so: "slots_ok (hasher hm) (data hm)" and ku: "keys_unique (data hm)"
    and len: "length (data hm) = buffer_size hm"
    and p: "p < length (data hm)" and occ: "status (data hm ! p) = 1"
    and key: "key = fst (keyvalue (data hm ! p))"
    and h1: "h1 = hasher hm key mod buffer_size hm"
  shows "i \<le> dist_to_ideal (data hm ! p) \<Longrightarrow> find_loop hm key h1 i = (p, AtMatch)"
proof (induction "dist_to_ideal (data hm ! p) - i" arbitrary: i)
  case 0
  let ?d = "dist_to_ideal (data hm ! p)"
  have h1': "h1 = hasher hm (fst (keyvalue (data hm ! p))) mod length (data hm)"
    using h1 key len by simp
  note ps = present_scan [OF so ku p occ h1']
  from 0 have i: "i = ?d" by simp
  have "i < buffer_size hm" using ps(1) i len by simp
  moreover have "(h1 + i) mod buffer_size hm = p" using ps(2) i len by simp
  ultimately show ?case
    using find_loop_match [of i hm h1 key] occ key by simp
next
  case (Suc m)
  let ?d = "dist_to_ideal (data hm ! p)"
  have h1': "h1 = hasher hm (fst (keyvalue (data hm ! p))) mod length (data hm)"
    using h1 key len by simp
  note ps = present_scan [OF so ku p occ h1']
  have i: "i < ?d" using Suc.hyps(2) by simp
  have ib: "i < buffer_size hm" using ps(1) i len by simp
  have "find_loop hm key h1 i = find_loop hm key h1 (i + 1)"
    using ib ps(3) [OF i] ps(4) [OF i] len key by (intro find_loop_skip) simp_all
  moreover have "find_loop hm key h1 (i + 1) = (p, AtMatch)"
    using Suc.hyps(1) [of "i + 1"] Suc.hyps(2) i by simp
  ultimately show ?case by simp
qed

lemma find_loop_present:
  assumes "slots_ok (hasher hm) (data hm)" "keys_unique (data hm)"
    and "length (data hm) = buffer_size hm"
    and "p < length (data hm)" "status (data hm ! p) = 1"
    and "key = fst (keyvalue (data hm ! p))"
  shows "find_loop hm key (get_hash hm key) 0 = (p, AtMatch)"
  using find_loop_present_aux [OF assms, of "get_hash hm key" 0] by (simp add: get_hash_def)

lemma insert_loop_present_aux:
  assumes so: "slots_ok (hasher hm) (data hm)" and ku: "keys_unique (data hm)"
    and len: "length (data hm) = buffer_size hm"
    and p: "p < length (data hm)" and occ: "status (data hm ! p) = 1"
    and key: "key = fst (keyvalue (data hm ! p))"
    and h1: "h1 = hasher hm key mod buffer_size hm"
  shows "i \<le> dist_to_ideal (data hm ! p) \<Longrightarrow> insert_loop hm key h1 i kv i ins = (hm, p, AtMatch)"
proof (induction "dist_to_ideal (data hm ! p) - i" arbitrary: i)
  case 0
  let ?d = "dist_to_ideal (data hm ! p)"
  have h1': "h1 = hasher hm (fst (keyvalue (data hm ! p))) mod length (data hm)"
    using h1 key len by simp
  note ps = present_scan [OF so ku p occ h1']
  from 0 have i: "i = ?d" by simp
  have "i < buffer_size hm" using ps(1) i len by simp
  moreover have "(h1 + i) mod buffer_size hm = p" using ps(2) i len by simp
  ultimately show ?case
    using insert_loop_match [of i hm h1 key kv i ins] occ key by simp
next
  case (Suc m)
  let ?d = "dist_to_ideal (data hm ! p)"
  have h1': "h1 = hasher hm (fst (keyvalue (data hm ! p))) mod length (data hm)"
    using h1 key len by simp
  note ps = present_scan [OF so ku p occ h1']
  have i: "i < ?d" using Suc.hyps(2) by simp
  have ib: "i < buffer_size hm" using ps(1) i len by simp
  have "insert_loop hm key h1 i kv i ins = insert_loop hm key h1 (i + 1) kv (i + 1) ins"
    using ib ps(3) [OF i] ps(4) [OF i] ps(5) [OF i] len key
    by (intro insert_loop_skip) simp_all
  moreover have "insert_loop hm key h1 (i + 1) kv (i + 1) ins = (hm, p, AtMatch)"
    using Suc.hyps(1) [of "i + 1"] Suc.hyps(2) i by simp
  ultimately show ?case by simp
qed

lemma insert_loop_present:
  assumes "slots_ok (hasher hm) (data hm)" "keys_unique (data hm)"
    and "length (data hm) = buffer_size hm"
    and "p < length (data hm)" "status (data hm ! p) = 1"
    and "key = fst (keyvalue (data hm ! p))"
  shows "insert_loop hm key (get_hash hm key) 0 kv 0 ins = (hm, p, AtMatch)"
  using insert_loop_present_aux [OF assms, of "get_hash hm key" 0] by (simp add: get_hash_def)

subsection \<open>find\<close>

lemma find_loop_result:
  "find_loop hm key h1 i = (r, ex) \<Longrightarrow>
     (ex = AtMatch \<and> r < buffer_size hm \<and> status (data hm ! r) = 1
        \<and> fst (keyvalue (data hm ! r)) = key)
   \<or> (ex \<noteq> AtMatch \<and> r = buffer_size hm)"
proof (induction "buffer_size hm - i" arbitrary: i)
  case 0
  then have "\<not> i < buffer_size hm" by simp
  then show ?case using "0.prems" by (simp add: find_loop_end)
next
  case (Suc m)
  let ?x = "(h1 + i) mod buffer_size hm"
  have i: "i < buffer_size hm" using Suc.hyps(2) by simp
  then have xn: "?x < buffer_size hm" by simp
  consider (match) "status (data hm ! ?x) = 1" "fst (keyvalue (data hm ! ?x)) = key"
    | (empty) "status (data hm ! ?x) = - 1"
    | (skip) "status (data hm ! ?x) \<noteq> - 1"
        "\<not> (status (data hm ! ?x) = 1 \<and> fst (keyvalue (data hm ! ?x)) = key)"
    by blast
  then show ?case
  proof cases
    case match
    then show ?thesis using Suc.prems i xn find_loop_match [of i hm h1 key] by auto
  next
    case empty
    then show ?thesis using Suc.prems i find_loop_empty [of i hm h1 key] by auto
  next
    case skip
    then have "find_loop hm key h1 i = find_loop hm key h1 (i + 1)"
      using i by (intro find_loop_skip)
    then have "find_loop hm key h1 (i + 1) = (r, ex)" using Suc.prems by simp
    moreover have "m = buffer_size hm - (i + 1)" using Suc.hyps(2) by simp
    ultimately show ?thesis by (rule Suc.hyps(1) [rotated])
  qed
qed

lemma find_loop_exit:
  assumes "length (data hm) = buffer_size hm"
    and "card (nonempty_slots (data hm)) < buffer_size hm"
    and "\<forall>i0<i. status (data hm ! ((h1 + i0) mod buffer_size hm)) \<noteq> - 1"
  shows "snd (find_loop hm key h1 i) \<noteq> FellThrough"
  using assms(3)
proof (induction "buffer_size hm - i" arbitrary: i)
  case 0
  then have "\<not> i < buffer_size hm" by simp
  then have "\<forall>i0<length (data hm). status (data hm ! ((h1 + i0) mod length (data hm))) \<noteq> - 1"
    using "0.prems" assms(1) by simp
  then have "card (nonempty_slots (data hm)) = length (data hm)"
    by (rule all_slots_nonempty)
  then show ?case using assms(1,2) by simp
next
  case (Suc m)
  let ?x = "(h1 + i) mod buffer_size hm"
  have i: "i < buffer_size hm" using Suc.hyps(2) by simp
  consider (match) "status (data hm ! ?x) = 1" "fst (keyvalue (data hm ! ?x)) = key"
    | (empty) "status (data hm ! ?x) = - 1"
    | (skip) "status (data hm ! ?x) \<noteq> - 1"
        "\<not> (status (data hm ! ?x) = 1 \<and> fst (keyvalue (data hm ! ?x)) = key)"
    by blast
  then show ?case
  proof cases
    case match
    then show ?thesis using i find_loop_match [of i hm h1 key] by simp
  next
    case empty
    then show ?thesis using i find_loop_empty [of i hm h1 key] by simp
  next
    case skip
    then have eq: "find_loop hm key h1 i = find_loop hm key h1 (i + 1)"
      using i by (intro find_loop_skip)
    have "\<forall>i0<i + 1. status (data hm ! ((h1 + i0) mod buffer_size hm)) \<noteq> - 1"
      using Suc.prems skip(1) by (auto simp: less_Suc_eq)
    moreover have "m = buffer_size hm - (i + 1)" using Suc.hyps(2) by simp
    ultimately have "snd (find_loop hm key h1 (i + 1)) \<noteq> FellThrough"
      by (rule Suc.hyps(1) [rotated])
    then show ?thesis using eq by simp
  qed
qed

subsection \<open>erase\<close>

lemma erase_loop_absent:
  assumes "key \<notin> fst ` live (data hm)" and "length (data hm) = buffer_size hm"
  shows "fst (erase_loop hm key h1 i) = hm"
proof (induction "buffer_size hm - i" arbitrary: i)
  case 0
  then have "\<not> i < buffer_size hm" by simp
  then show ?case by (simp add: erase_loop_end)
next
  case (Suc m)
  let ?x = "(h1 + i) mod buffer_size hm"
  have i: "i < buffer_size hm" using Suc.hyps(2) by simp
  then have xn: "?x < length (data hm)" using assms(2) by simp
  have nm: "\<not> (status (data hm ! ?x) = 1 \<and> fst (keyvalue (data hm ! ?x)) = key)"
    using assms(1) xn unfolding key_live_iff by blast
  show ?case
  proof (cases "status (data hm ! ?x) = - 1")
    case True
    then show ?thesis using i erase_loop_empty [of i hm h1 key] by simp
  next
    case False
    then have "erase_loop hm key h1 i = erase_loop hm key h1 (i + 1)"
      using i nm by (intro erase_loop_skip)
    moreover have "fst (erase_loop hm key h1 (i + 1)) = hm"
      using Suc.hyps(1) [of "i + 1"] Suc.hyps(2) by simp
    ultimately show ?thesis by simp
  qed
qed

lemma erase_loop_present_aux:
  assumes so: "slots_ok (hasher hm) (data hm)" and ku: "keys_unique (data hm)"
    and len: "length (data hm) = buffer_size hm"
    and p: "p < length (data hm)" and occ: "status (data hm ! p) = 1"
    and key: "key = fst (keyvalue (data hm ! p))"
    and h1: "h1 = hasher hm key mod buffer_size hm"
  shows "i \<le> dist_to_ideal (data hm ! p) \<Longrightarrow>
         fst (erase_loop hm key h1 i) =
           hm\<lparr>data := (data hm)[p := (data hm ! p)\<lparr>status := 0\<rparr>], cnt_dead := cnt_dead hm + 1\<rparr>"
proof (induction "dist_to_ideal (data hm ! p) - i" arbitrary: i)
  case 0
  let ?d = "dist_to_ideal (data hm ! p)"
  let ?hm1 = "hm\<lparr>data := (data hm)[p := (data hm ! p)\<lparr>status := 0\<rparr>], cnt_dead := cnt_dead hm + 1\<rparr>"
  have h1': "h1 = hasher hm (fst (keyvalue (data hm ! p))) mod length (data hm)"
    using h1 key len by simp
  note ps = present_scan [OF so ku p occ h1']
  from 0 have i: "i = ?d" by simp
  have ib: "i < buffer_size hm" using ps(1) i len by simp
  have x: "(h1 + i) mod buffer_size hm = p" using ps(2) i len by simp
  have eq: "erase_loop hm key h1 i = erase_loop ?hm1 key h1 (i + 1)"
    using erase_loop_match [of i hm h1 key] ib x p occ key by simp
  have "live (data ?hm1) = live (data hm) - {keyvalue (data hm ! p)}"
    using live_update_tomb [OF p ku occ, of "(data hm ! p)\<lparr>status := 0\<rparr>"] by simp
  moreover have "key \<notin> fst ` (live (data hm) - {keyvalue (data hm ! p)})"
  proof
    assume "key \<in> fst ` (live (data hm) - {keyvalue (data hm ! p)})"
    then obtain kv where kv: "kv \<in> live (data hm)" "kv \<noteq> keyvalue (data hm ! p)" "fst kv = key"
      by auto
    then obtain q where q: "q < length (data hm)" "status (data hm ! q) = 1"
      "keyvalue (data hm ! q) = kv"
      unfolding live_iff by auto
    then have "q = p" using ku p occ key kv(3) unfolding keys_unique_def by blast
    then show False using q(3) kv(2) by simp
  qed
  ultimately have "key \<notin> fst ` live (data ?hm1)" by simp
  moreover have "length (data ?hm1) = buffer_size ?hm1" using len by simp
  ultimately have "fst (erase_loop ?hm1 key h1 (i + 1)) = ?hm1"
    by (rule erase_loop_absent)
  then show ?case using eq by simp
next
  case (Suc m)
  let ?d = "dist_to_ideal (data hm ! p)"
  have h1': "h1 = hasher hm (fst (keyvalue (data hm ! p))) mod length (data hm)"
    using h1 key len by simp
  note ps = present_scan [OF so ku p occ h1']
  have i: "i < ?d" using Suc.hyps(2) by simp
  have ib: "i < buffer_size hm" using ps(1) i len by simp
  have "erase_loop hm key h1 i = erase_loop hm key h1 (i + 1)"
    using ib ps(3) [OF i] ps(4) [OF i] len key by (intro erase_loop_skip) simp_all
  then show ?case
    using Suc.hyps(1) [of "i + 1"] Suc.hyps(2) i by simp
qed

lemma erase_loop_exit:
  assumes "length (data hm) = buffer_size hm"
    and "card (nonempty_slots (data hm)) < buffer_size hm"
    and "\<forall>i0<i. status (data hm ! ((h1 + i0) mod buffer_size hm)) \<noteq> - 1"
  shows "snd (erase_loop hm key h1 i) = AtEmpty"
  using assms
proof (induction "buffer_size hm - i" arbitrary: hm i)
  case 0
  then have "\<not> i < buffer_size hm" by simp
  then have "\<forall>i0<length (data hm). status (data hm ! ((h1 + i0) mod length (data hm))) \<noteq> - 1"
    using "0.prems" by simp
  then have "card (nonempty_slots (data hm)) = length (data hm)"
    by (rule all_slots_nonempty)
  then show ?case using "0.prems" by simp
next
  case (Suc m)
  let ?x = "(h1 + i) mod buffer_size hm"
  have i: "i < buffer_size hm" using Suc.hyps(2) by simp
  then have xn: "?x < length (data hm)" using Suc.prems(1) by simp
  consider (match) "status (data hm ! ?x) = 1" "fst (keyvalue (data hm ! ?x)) = key"
    | (empty) "status (data hm ! ?x) = - 1"
    | (skip) "status (data hm ! ?x) \<noteq> - 1"
        "\<not> (status (data hm ! ?x) = 1 \<and> fst (keyvalue (data hm ! ?x)) = key)"
    by blast
  then show ?case
  proof cases
    case match
    let ?nd = "(data hm ! ?x)\<lparr>status := 0\<rparr>"
    let ?hm1 = "hm\<lparr>data := (data hm)[?x := ?nd], cnt_dead := cnt_dead hm + 1\<rparr>"
    have eq: "erase_loop hm key h1 i = erase_loop ?hm1 key h1 (i + 1)"
      using i xn match by (rule erase_loop_match)
    have "?x \<in> nonempty_slots (data hm)" using xn match(1) by (simp add: nonempty_slots_def)
    then have ne1: "nonempty_slots (data ?hm1) = nonempty_slots (data hm)"
      using nonempty_slots_update [OF xn, of ?nd] by auto
    have st: "status (data ?hm1 ! q) \<noteq> - 1" if "status (data hm ! q) \<noteq> - 1" for q
      using that xn by (cases "q = ?x") simp_all
    have "snd (erase_loop ?hm1 key h1 (i + 1)) = AtEmpty"
    proof (rule Suc.hyps(1))
      show "m = buffer_size ?hm1 - (i + 1)" using Suc.hyps(2) by simp
      show "length (data ?hm1) = buffer_size ?hm1" using Suc.prems(1) by simp
      show "card (nonempty_slots (data ?hm1)) < buffer_size ?hm1"
        using ne1 Suc.prems(2) by simp
      show "\<forall>i0<i + 1. status (data ?hm1 ! ((h1 + i0) mod buffer_size ?hm1)) \<noteq> - 1"
      proof (intro allI impI)
        fix i0 assume "i0 < i + 1"
        then have "i0 < i \<or> i0 = i" by auto
        then have "status (data hm ! ((h1 + i0) mod buffer_size hm)) \<noteq> - 1"
          using Suc.prems(3) match(1) by auto
        then show "status (data ?hm1 ! ((h1 + i0) mod buffer_size ?hm1)) \<noteq> - 1"
          using st by simp
      qed
    qed
    then show ?thesis using eq by simp
  next
    case empty
    then show ?thesis using i erase_loop_empty [of i hm h1 key] by simp
  next
    case skip
    then have eq: "erase_loop hm key h1 i = erase_loop hm key h1 (i + 1)"
      using i by (intro erase_loop_skip)
    have "snd (erase_loop hm key h1 (i + 1)) = AtEmpty"
    proof (rule Suc.hyps(1))
      show "m = buffer_size hm - (i + 1)" using Suc.hyps(2) by simp
      show "length (data hm) = buffer_size hm" by (rule Suc.prems(1))
      show "card (nonempty_slots (data hm)) < buffer_size hm" by (rule Suc.prems(2))
      show "\<forall>i0<i + 1. status (data hm ! ((h1 + i0) mod buffer_size hm)) \<noteq> - 1"
        using Suc.prems(3) skip(1) by (auto simp: less_Suc_eq)
    qed
    then show ?thesis using eq by simp
  qed
qed

subsection \<open>Lists of slots\<close>

lemma live_Nil [simp]: "live [] = {}"
  by (simp add: live_def)

lemma live_Cons:
  "live (x # xs) = (if status x = 1 then insert (keyvalue x) (live xs) else live xs)"
proof (rule set_eqI)
  fix kv
  show "kv \<in> live (x # xs) \<longleftrightarrow>
        kv \<in> (if status x = 1 then insert (keyvalue x) (live xs) else live xs)"
  proof
    assume "kv \<in> live (x # xs)"
    then obtain p where p: "p < length (x # xs)" "status ((x # xs) ! p) = 1"
      "keyvalue ((x # xs) ! p) = kv"
      unfolding live_iff by auto
    show "kv \<in> (if status x = 1 then insert (keyvalue x) (live xs) else live xs)"
    proof (cases p)
      case 0
      then show ?thesis using p by simp
    next
      case (Suc q)
      then have "q < length xs" "status (xs ! q) = 1" "keyvalue (xs ! q) = kv"
        using p by simp_all
      then have "kv \<in> live xs" unfolding live_iff by blast
      then show ?thesis by simp
    qed
  next
    assume a: "kv \<in> (if status x = 1 then insert (keyvalue x) (live xs) else live xs)"
    show "kv \<in> live (x # xs)"
    proof (cases "status x = 1 \<and> kv = keyvalue x")
      case True
      then have "0 < length (x # xs) \<and> status ((x # xs) ! 0) = 1 \<and> keyvalue ((x # xs) ! 0) = kv"
        by simp
      then show ?thesis unfolding live_iff by blast
    next
      case False
      then have "kv \<in> live xs" using a by (auto split: if_splits)
      then obtain q where q: "q < length xs" "status (xs ! q) = 1" "keyvalue (xs ! q) = kv"
        unfolding live_iff by auto
      then have "Suc q < length (x # xs) \<and> status ((x # xs) ! Suc q) = 1
                 \<and> keyvalue ((x # xs) ! Suc q) = kv"
        by simp
      then show ?thesis unfolding live_iff by blast
    qed
  qed
qed

lemma set_entries: "set (entries hm) = live (data hm)"
proof -
  have "set (map keyvalue (filter (\<lambda>nd. status nd = 1) xs)) = live xs" for xs :: "('a, 'b) Node list"
    by (induction xs) (simp_all add: live_Cons)
  then show ?thesis by (simp add: entries_def)
qed

lemma keys_unique_Cons:
  assumes "keys_unique (x # xs)"
  shows "keys_unique xs"
    and "status x = 1 \<Longrightarrow> fst (keyvalue x) \<notin> fst ` live xs"
proof -
  show "keys_unique xs"
    unfolding keys_unique_def
  proof (intro allI impI)
    fix p q
    assume "p < length xs" "q < length xs"
      and "status (xs ! p) = 1 \<and> status (xs ! q) = 1
           \<and> fst (keyvalue (xs ! p)) = fst (keyvalue (xs ! q))"
    then have "Suc p < length (x # xs)" "Suc q < length (x # xs)"
      "status ((x # xs) ! Suc p) = 1 \<and> status ((x # xs) ! Suc q) = 1
       \<and> fst (keyvalue ((x # xs) ! Suc p)) = fst (keyvalue ((x # xs) ! Suc q))"
      by simp_all
    then have "Suc p = Suc q" using assms unfolding keys_unique_def by blast
    then show "p = q" by simp
  qed
  show "fst (keyvalue x) \<notin> fst ` live xs" if occ: "status x = 1"
  proof
    assume "fst (keyvalue x) \<in> fst ` live xs"
    then obtain q where q: "q < length xs" "status (xs ! q) = 1"
      "fst (keyvalue (xs ! q)) = fst (keyvalue x)"
      unfolding key_live_iff by auto
    then have "Suc q < length (x # xs)" "0 < length (x # xs)"
      "status ((x # xs) ! Suc q) = 1 \<and> status ((x # xs) ! 0) = 1
       \<and> fst (keyvalue ((x # xs) ! Suc q)) = fst (keyvalue ((x # xs) ! 0))"
      using occ by simp_all
    then have "Suc q = 0" using assms unfolding keys_unique_def by blast
    then show False by simp
  qed
qed

lemma distinct_entries:
  "keys_unique xs \<Longrightarrow> distinct (map (\<lambda>nd. fst (keyvalue nd)) (filter (\<lambda>nd. status nd = 1) xs))"
proof (induction xs)
  case Nil
  then show ?case by simp
next
  case (Cons x xs)
  note ku = keys_unique_Cons [OF Cons.prems]
  have "set (map (\<lambda>nd. fst (keyvalue nd)) (filter (\<lambda>nd. status nd = 1) xs)) = fst ` live xs"
    using set_entries [of "\<lparr>hasher = undefined, data = xs, cnt_all = 0, cnt_dead = 0, buffer_size = 0\<rparr>"]
    by (simp add: entries_def image_image [symmetric] del: image_image)
  then show ?case using Cons.IH ku by simp
qed

subsection \<open>Counting slots\<close>

lemma occupied_card:
  assumes "statuses_ok xs"
  shows "card (nonempty_slots xs) = card {p. p < length xs \<and> status (xs ! p) = 1} + card (dead_slots xs)"
proof -
  let ?occ = "{p. p < length xs \<and> status (xs ! p) = 1}"
  have "nonempty_slots xs = ?occ \<union> dead_slots xs"
    using assms by (auto simp: nonempty_slots_def dead_slots_def statuses_ok_def)
  moreover have "?occ \<inter> dead_slots xs = {}" by (auto simp: dead_slots_def)
  moreover have "finite ?occ" by simp
  ultimately show ?thesis by (simp add: card_Un_disjoint)
qed

lemma live_card:
  assumes "keys_unique xs"
  shows "card (live xs) = card {p. p < length xs \<and> status (xs ! p) = 1}"
    and "card (fst ` live xs) = card {p. p < length xs \<and> status (xs ! p) = 1}"
proof -
  let ?occ = "{p. p < length xs \<and> status (xs ! p) = 1}"
  have inj: "inj_on (\<lambda>p. fst (keyvalue (xs ! p))) ?occ"
    using assms unfolding keys_unique_def inj_on_def by blast
  have inj2: "inj_on (\<lambda>p. keyvalue (xs ! p)) ?occ"
  proof (rule inj_onI)
    fix p q
    assume "p \<in> ?occ" "q \<in> ?occ" "keyvalue (xs ! p) = keyvalue (xs ! q)"
    then have "p \<in> ?occ" "q \<in> ?occ" "fst (keyvalue (xs ! p)) = fst (keyvalue (xs ! q))"
      by simp_all
    then show "p = q" using inj unfolding inj_on_def by blast
  qed
  have "live xs = (\<lambda>p. keyvalue (xs ! p)) ` ?occ" by (auto simp: live_def)
  then show "card (live xs) = card ?occ" using inj2 by (simp add: card_image)
  have "fst ` live xs = (\<lambda>p. fst (keyvalue (xs ! p))) ` ?occ"
    by (auto simp: live_def image_iff)
  then show "card (fst ` live xs) = card ?occ" using inj by (simp add: card_image)
qed

lemma size_hm_live:
  assumes "table_inv hm"
  shows "cnt_dead hm \<le> cnt_all hm"
    and "size_hm hm = card (live (data hm))"
    and "size_hm hm = card (fst ` live (data hm))"
proof -
  have c: "cnt_all hm = card {p. p < length (data hm) \<and> status (data hm ! p) = 1} + cnt_dead hm"
    using assms occupied_card [of "data hm"] by (simp add: table_inv_def)
  then show le: "cnt_dead hm \<le> cnt_all hm" by simp
  have ku: "keys_unique (data hm)" using assms by (simp add: table_inv_def)
  show "size_hm hm = card (live (data hm))"
    using c le live_card(1) [OF ku] by (simp add: size_hm_def)
  show "size_hm hm = card (fst ` live (data hm))"
    using c le live_card(2) [OF ku] by (simp add: size_hm_def)
qed

subsection \<open>The invariant\<close>

lemma grow_iff: "(real b * load_factor < real c) = (b < 2 * c)"
  by (auto simp: load_factor_def)

lemma live_replicate_empty [simp]: "live (replicate n Node_empty) = {}"
  by (auto simp: live_def Node_empty_def)

lemma table_inv_fresh:
  assumes "16 \<le> n"
  shows "table_inv \<lparr>hasher = h, data = replicate n Node_empty, cnt_all = 0, cnt_dead = 0,
                    buffer_size = n\<rparr>"
proof -
  have "nonempty_slots (replicate n (Node_empty :: ('a, 'b) Node)) = {}"
    by (auto simp: nonempty_slots_def Node_empty_def)
  moreover have "dead_slots (replicate n (Node_empty :: ('a, 'b) Node)) = {}"
    by (auto simp: dead_slots_def Node_empty_def)
  moreover have "statuses_ok (replicate n (Node_empty :: ('a, 'b) Node))"
    by (simp add: statuses_ok_def Node_empty_def)
  moreover have "slots_ok h (replicate n (Node_empty :: ('a, 'b) Node))"
    by (simp add: slots_ok_def Node_empty_def)
  moreover have "keys_unique (replicate n (Node_empty :: ('a, 'b) Node))"
    by (simp add: keys_unique_def Node_empty_def)
  ultimately show ?thesis using assms by (simp add: table_inv_def)
qed

lemma table_inv_new: "table_inv (HashMap_new h)"
  unfolding HashMap_new_def by (rule table_inv_fresh) (simp add: default_size_def)

lemma inserted_inv:
  assumes inv: "table_inv hm" and room: "2 * cnt_all hm \<le> buffer_size hm"
    and ins: "inserted hm kv hm'"
  shows "table_inv hm'"
proof -
  from ins obtain x where x: "x < length (data hm)" "status (data hm ! x) = - 1"
    "nonempty_slots (data hm') = insert x (nonempty_slots (data hm))"
    unfolding inserted_def by blast
  have "x \<notin> nonempty_slots (data hm)" using x(2) by (simp add: nonempty_slots_def)
  then have "card (nonempty_slots (data hm')) = card (nonempty_slots (data hm)) + 1"
    using x(3) by simp
  then show ?thesis
    using inv room ins unfolding table_inv_def inserted_def by simp
qed

lemma nonempty_card_less:
  assumes "table_inv hm" "2 * cnt_all hm \<le> buffer_size hm"
  shows "card (nonempty_slots (data hm)) < buffer_size hm"
  using assms by (simp add: table_inv_def)

lemma nonempty_card_less':
  assumes "table_inv hm"
  shows "card (nonempty_slots (data hm)) < buffer_size hm"
  using assms by (simp add: table_inv_def)

lemma insert_scan_present:
  assumes inv: "table_inv hm"
    and pres: "fst kv \<in> fst ` live (data hm)"
    and res: "insert_loop hm (fst kv) (get_hash hm (fst kv)) 0 kv 0 ins = (hm', it, ex)"
  shows "hm' = hm \<and> ex = AtMatch \<and> it < buffer_size hm \<and> status (data hm ! it) = 1
         \<and> fst (keyvalue (data hm ! it)) = fst kv"
proof -
  from pres obtain p where p: "p < length (data hm)" "status (data hm ! p) = 1"
    "fst (keyvalue (data hm ! p)) = fst kv"
    unfolding key_live_iff by auto
  have "insert_loop hm (fst kv) (get_hash hm (fst kv)) 0 kv 0 ins = (hm, p, AtMatch)"
    using inv p by (intro insert_loop_present) (simp_all add: table_inv_def)
  then show ?thesis using res p inv by (simp add: table_inv_def)
qed

lemma insert_scan_absent:
  assumes inv: "table_inv hm" and room: "2 * cnt_all hm \<le> buffer_size hm"
    and abs: "fst kv \<notin> fst ` live (data hm)"
    and res: "insert_loop hm (fst kv) (get_hash hm (fst kv)) 0 kv 0 ins = (hm', it, ex)"
  shows "ex = AtEmpty \<and> inserted hm kv hm'"
proof (rule insert_loop_absent [OF _ _ _ res])
  have len: "length (data hm) = buffer_size hm" using inv by (simp add: table_inv_def)
  show "length (data hm) = buffer_size hm" by (rule len)
  show "card (nonempty_slots (data hm)) < buffer_size hm"
    using inv room by (rule nonempty_card_less)
  have "\<forall>p<length (data hm). status (data hm ! p) = 1 \<and> fst (keyvalue (data hm ! p)) = fst kv
          \<longrightarrow> (\<exists>i0<0. p = (get_hash hm (fst kv) + i0) mod length (data hm))"
    using abs unfolding key_live_iff by blast
  then show "carry_ok (hasher hm) (data hm) (fst kv) (get_hash hm (fst kv)) 0 kv 0"
    using inv abs len unfolding carry_ok_def
    by (simp add: table_inv_def chain_ok_zero get_hash_def)
qed

lemma erase_present:
  assumes inv: "table_inv hm"
    and p: "p < length (data hm)" "status (data hm ! p) = 1" "fst (keyvalue (data hm ! p)) = key"
  shows "erase hm key =
           hm\<lparr>data := (data hm)[p := (data hm ! p)\<lparr>status := 0\<rparr>], cnt_dead := cnt_dead hm + 1\<rparr>"
  unfolding erase_def
  using inv p
  by (intro erase_loop_present_aux) (simp_all add: table_inv_def get_hash_def)

lemma erase_absent:
  assumes inv: "table_inv hm" and abs: "key \<notin> fst ` live (data hm)"
  shows "erase hm key = hm"
  unfolding erase_def using abs inv by (intro erase_loop_absent) (simp_all add: table_inv_def)

lemma tombstone_inv:
  assumes inv: "table_inv hm"
    and p: "p < length (data hm)" "status (data hm ! p) = 1"
  shows "table_inv (hm\<lparr>data := (data hm)[p := (data hm ! p)\<lparr>status := 0\<rparr>],
                      cnt_dead := cnt_dead hm + 1\<rparr>)"
proof -
  let ?nd = "(data hm ! p)\<lparr>status := 0\<rparr>"
  let ?ys = "(data hm)[p := ?nd]"
  have so: "slots_ok (hasher hm) ?ys"
    using inv p(1) by (intro slots_ok_update) (simp_all add: table_inv_def)
  have ku: "keys_unique ?ys"
    using inv by (intro keys_unique_update) (simp_all add: table_inv_def)
  have st: "statuses_ok ?ys"
    using inv by (intro statuses_ok_update) (simp_all add: table_inv_def)
  have "p \<in> nonempty_slots (data hm)" using p by (simp add: nonempty_slots_def)
  then have ne: "nonempty_slots ?ys = nonempty_slots (data hm)"
    using nonempty_slots_update [OF p(1), of ?nd] by auto
  have "p \<notin> dead_slots (data hm)" using p by (simp add: dead_slots_def)
  then have "card (dead_slots ?ys) = card (dead_slots (data hm)) + 1"
    using dead_slots_update [OF p(1), of ?nd] by simp
  then show ?thesis
    using inv so ku st ne by (simp add: table_inv_def)
qed

lemma erase_inv:
  assumes inv: "table_inv hm"
  shows "table_inv (erase hm key)"
    and "live (data (erase hm key)) = {kv \<in> live (data hm). fst kv \<noteq> key}"
    and "hasher (erase hm key) = hasher hm"
    and "buffer_size (erase hm key) = buffer_size hm"
    and "cnt_all (erase hm key) = cnt_all hm"
proof -
  have "table_inv (erase hm key)
      \<and> live (data (erase hm key)) = {kv \<in> live (data hm). fst kv \<noteq> key}
      \<and> hasher (erase hm key) = hasher hm
      \<and> buffer_size (erase hm key) = buffer_size hm
      \<and> cnt_all (erase hm key) = cnt_all hm"
  proof (cases "key \<in> fst ` live (data hm)")
    case False
    then have "erase hm key = hm" using inv by (intro erase_absent)
    moreover have "{kv \<in> live (data hm). fst kv \<noteq> key} = live (data hm)"
      using False by auto
    ultimately show ?thesis using inv by simp
  next
    case True
    then obtain p where p: "p < length (data hm)" "status (data hm ! p) = 1"
      "fst (keyvalue (data hm ! p)) = key"
      unfolding key_live_iff by auto
    let ?hm1 = "hm\<lparr>data := (data hm)[p := (data hm ! p)\<lparr>status := 0\<rparr>],
                    cnt_dead := cnt_dead hm + 1\<rparr>"
    have eq: "erase hm key = ?hm1" using inv p by (rule erase_present)
    have ku: "keys_unique (data hm)" using inv by (simp add: table_inv_def)
    have l1: "live (data ?hm1) = live (data hm) - {keyvalue (data hm ! p)}"
      using live_update_tomb [OF p(1) ku p(2), of "(data hm ! p)\<lparr>status := 0\<rparr>"] by simp
    have "live (data hm) - {keyvalue (data hm ! p)} = {kv \<in> live (data hm). fst kv \<noteq> key}"
    proof (rule set_eqI)
      fix kv
      show "kv \<in> live (data hm) - {keyvalue (data hm ! p)}
            \<longleftrightarrow> kv \<in> {kv \<in> live (data hm). fst kv \<noteq> key}"
      proof
        assume a: "kv \<in> live (data hm) - {keyvalue (data hm ! p)}"
        then have "kv \<in> live (data hm)" by simp
        then obtain q where q: "q < length (data hm)" "status (data hm ! q) = 1"
          "keyvalue (data hm ! q) = kv"
          unfolding live_iff by auto
        have "fst kv \<noteq> key"
        proof
          assume "fst kv = key"
          then have "q = p" using ku p q unfolding keys_unique_def by blast
          then show False using a q(3) by simp
        qed
        then show "kv \<in> {kv \<in> live (data hm). fst kv \<noteq> key}" using a by simp
      next
        assume "kv \<in> {kv \<in> live (data hm). fst kv \<noteq> key}"
        then show "kv \<in> live (data hm) - {keyvalue (data hm ! p)}" using p(3) by auto
      qed
    qed
    then have "live (data ?hm1) = {kv \<in> live (data hm). fst kv \<noteq> key}" using l1 by simp
    moreover have "table_inv ?hm1" using inv p(1,2) by (rule tombstone_inv)
    ultimately show ?thesis unfolding eq by simp
  qed
  then show "table_inv (erase hm key)"
    and "live (data (erase hm key)) = {kv \<in> live (data hm). fst kv \<noteq> key}"
    and "hasher (erase hm key) = hasher hm"
    and "buffer_size (erase hm key) = buffer_size hm"
    and "cnt_all (erase hm key) = cnt_all hm"
    by simp_all
qed

subsection \<open>resize and insert\<close>

lemma table_inv_empty:
  assumes "16 \<le> buffer_size hm" "data hm = replicate (buffer_size hm) Node_empty"
    "cnt_all hm = 0" "cnt_dead hm = 0"
  shows "table_inv hm"
proof -
  have "hm = \<lparr>hasher = hasher hm, data = replicate (buffer_size hm) Node_empty, cnt_all = 0,
              cnt_dead = 0, buffer_size = buffer_size hm\<rparr>"
    using assms by (cases hm) simp
  then show ?thesis using table_inv_fresh [OF assms(1), of "hasher hm"] by metis
qed

lemma insert_hm_no_growth:
  assumes "2 * cnt_all hm \<le> buffer_size hm"
  shows "insert_hm (Suc d) hm kv =
           Some (insert_loop hm (fst kv) (get_hash hm (fst kv)) 0 kv 0 (- 1))"
  using assms by (simp add: resize_with_def grow_iff)

lemma reinsert_ok:
  assumes "table_inv hm" "cnt_dead hm = 0" "keys_unique ns"
    and "fst ` live ns \<inter> fst ` live (data hm) = {}"
    and "2 * (cnt_all hm + length ns) \<le> buffer_size hm"
    and "\<And>hm kv. 2 * cnt_all hm \<le> buffer_size hm \<Longrightarrow>
           ins hm kv = Some (insert_loop hm (fst kv) (get_hash hm (fst kv)) 0 kv 0 (- 1))"
  shows "\<exists>hm'. reinsert ins ns hm = Some hm' \<and> table_inv hm' \<and> cnt_dead hm' = 0
           \<and> buffer_size hm' = buffer_size hm \<and> hasher hm' = hasher hm
           \<and> live (data hm') = live (data hm) \<union> live ns
           \<and> 2 * cnt_all hm' \<le> buffer_size hm"
  using assms
proof (induction ns arbitrary: hm)
  case Nil
  then show ?case by simp
next
  case (Cons n ns)
  note ku = keys_unique_Cons [OF Cons.prems(3)]
  show ?case
  proof (cases "status n = 1")
    case False
    then have l: "live (n # ns) = live ns" by (simp add: live_Cons)
    have "\<exists>hm'. reinsert ins ns hm = Some hm' \<and> table_inv hm' \<and> cnt_dead hm' = 0
           \<and> buffer_size hm' = buffer_size hm \<and> hasher hm' = hasher hm
           \<and> live (data hm') = live (data hm) \<union> live ns
           \<and> 2 * cnt_all hm' \<le> buffer_size hm"
      using Cons.prems(1,2,4,5) l ku(1) by (intro Cons.IH Cons.prems(6)) simp_all
    then show ?thesis using False l by simp
  next
    case True
    let ?kv = "keyvalue n"
    have l: "live (n # ns) = insert ?kv (live ns)" using True by (simp add: live_Cons)
    have room: "2 * cnt_all hm \<le> buffer_size hm" using Cons.prems(5) by simp
    have abs: "fst ?kv \<notin> fst ` live (data hm)"
      using Cons.prems(4) l by auto
    obtain hm1 it ex where
      res: "insert_loop hm (fst ?kv) (get_hash hm (fst ?kv)) 0 ?kv 0 (- 1) = (hm1, it, ex)"
      by (metis prod_cases3)
    have eq: "ins hm ?kv = Some (hm1, it, ex)"
      using Cons.prems(6) [OF room, of ?kv] res by simp
    have ins: "inserted hm ?kv hm1"
      using insert_scan_absent [OF Cons.prems(1) room abs res] by simp
    have inv1: "table_inv hm1" using Cons.prems(1) room ins by (rule inserted_inv)
    have f1: "cnt_dead hm1 = 0" "buffer_size hm1 = buffer_size hm" "hasher hm1 = hasher hm"
      "cnt_all hm1 = cnt_all hm + 1" "live (data hm1) = insert ?kv (live (data hm))"
      using ins Cons.prems(2) by (simp_all add: inserted_def)
    have dis: "fst ` live ns \<inter> fst ` live (data hm1) = {}"
      using Cons.prems(4) l ku(2) [OF True] f1(5) by auto
    have "\<exists>hm'. reinsert ins ns hm1 = Some hm' \<and> table_inv hm' \<and> cnt_dead hm' = 0
           \<and> buffer_size hm' = buffer_size hm1 \<and> hasher hm' = hasher hm1
           \<and> live (data hm') = live (data hm1) \<union> live ns
           \<and> 2 * cnt_all hm' \<le> buffer_size hm1"
      using inv1 f1 ku(1) dis Cons.prems(5) by (intro Cons.IH Cons.prems(6)) simp_all
    then obtain hm' where hm': "reinsert ins ns hm1 = Some hm'" "table_inv hm'"
      "cnt_dead hm' = 0" "buffer_size hm' = buffer_size hm1" "hasher hm' = hasher hm1"
      "live (data hm') = live (data hm1) \<union> live ns" "2 * cnt_all hm' \<le> buffer_size hm1"
      by blast
    have "reinsert ins (n # ns) hm = Some hm'"
      using True eq hm'(1) by simp
    moreover have "live (data hm') = live (data hm) \<union> live (n # ns)"
      using hm'(6) f1(5) l by auto
    ultimately show ?thesis using hm' f1 by simp
  qed
qed

lemma resize_with_ok:
  assumes inv: "table_inv hm"
  shows "\<exists>hm1. resize_with (insert_hm (Suc d)) hm = Some hm1 \<and> table_inv hm1
           \<and> 2 * cnt_all hm1 \<le> buffer_size hm1
           \<and> live (data hm1) = live (data hm) \<and> hasher hm1 = hasher hm
           \<and> (if buffer_size hm < 2 * cnt_all hm
               then buffer_size hm1 = 2 * buffer_size hm \<and> cnt_dead hm1 = 0
               else hm1 = hm)"
proof (cases "buffer_size hm < 2 * cnt_all hm")
  case False
  then have "resize_with (insert_hm (Suc d)) hm = Some hm"
    by (simp add: resize_with_def grow_iff)
  then show ?thesis using False inv by simp
next
  case True
  let ?hm0 = "hm\<lparr>buffer_size := buffer_size hm * 2, cnt_dead := 0, cnt_all := 0,
                  data := replicate (buffer_size hm * 2) Node_empty\<rparr>"
  have eq: "resize_with (insert_hm (Suc d)) hm = reinsert (insert_hm (Suc d)) (data hm) ?hm0"
    using True by (simp add: resize_with_def grow_iff)
  have len: "length (data hm) = buffer_size hm" "16 \<le> buffer_size hm"
    using inv by (simp_all add: table_inv_def)
  have inv0: "table_inv ?hm0" using len(2) by (intro table_inv_empty) simp_all
  have "\<exists>hm'. reinsert (insert_hm (Suc d)) (data hm) ?hm0 = Some hm' \<and> table_inv hm'
           \<and> cnt_dead hm' = 0
           \<and> buffer_size hm' = buffer_size ?hm0 \<and> hasher hm' = hasher ?hm0
           \<and> live (data hm') = live (data ?hm0) \<union> live (data hm)
           \<and> 2 * cnt_all hm' \<le> buffer_size ?hm0"
    using inv0 inv len by (intro reinsert_ok insert_hm_no_growth) (simp_all add: table_inv_def)
  then show ?thesis using eq True by auto
qed

lemma insert_hm_ok:
  assumes inv: "table_inv hm"
  shows "\<exists>hm1 hm' it ex.
           resize (Suc d) hm = Some hm1
         \<and> insert_hm (Suc (Suc d)) hm kv = Some (hm', it, ex)
         \<and> table_inv hm1 \<and> table_inv hm'
         \<and> live (data hm1) = live (data hm) \<and> hasher hm' = hasher hm
         \<and> 2 * cnt_all hm1 \<le> buffer_size hm1
         \<and> (if fst kv \<in> fst ` live (data hm)
             then hm' = hm1 \<and> ex = AtMatch \<and> it < buffer_size hm'
                  \<and> status (data hm' ! it) = 1 \<and> fst (keyvalue (data hm' ! it)) = fst kv
             else ex = AtEmpty \<and> inserted hm1 kv hm')"
proof -
  obtain hm1 where hm1: "resize_with (insert_hm (Suc d)) hm = Some hm1" "table_inv hm1"
    "2 * cnt_all hm1 \<le> buffer_size hm1" "live (data hm1) = live (data hm)"
    "hasher hm1 = hasher hm"
    using resize_with_ok [OF inv, of d] by blast
  obtain hm' it ex where
    res: "insert_loop hm1 (fst kv) (get_hash hm1 (fst kv)) 0 kv 0 (- 1) = (hm', it, ex)"
    by (metis prod_cases3)
  have eq: "insert_hm (Suc (Suc d)) hm kv = Some (hm', it, ex)"
    using hm1(1) res by simp
  show ?thesis
  proof (cases "fst kv \<in> fst ` live (data hm)")
    case True
    then have "fst kv \<in> fst ` live (data hm1)" using hm1(4) by simp
    from insert_scan_present [OF hm1(2) this res]
    show ?thesis using hm1 eq True by (simp add: resize_def)
  next
    case False
    then have "fst kv \<notin> fst ` live (data hm1)" using hm1(4) by simp
    from insert_scan_absent [OF hm1(2,3) this res]
    have ins: "ex = AtEmpty" "inserted hm1 kv hm'" by simp_all
    have "table_inv hm'" using hm1(2,3) ins(2) by (rule inserted_inv)
    moreover have "hasher hm' = hasher hm" using ins(2) hm1(5) by (simp add: inserted_def)
    ultimately show ?thesis using hm1 eq False ins by (simp add: resize_def)
  qed
qed

subsection \<open>The depth bound\<close>

lemma reinsert_mono:
  assumes "\<And>hm kv r. ins hm kv = Some r \<Longrightarrow> ins' hm kv = Some r"
  shows "reinsert ins ns hm = Some r \<Longrightarrow> reinsert ins' ns hm = Some r"
proof (induction ns arbitrary: hm)
  case Nil
  then show ?case by simp
next
  case (Cons n ns)
  show ?case
  proof (cases "status n = 1")
    case False
    then show ?thesis using Cons by simp
  next
    case True
    then obtain hm1 it where a: "ins hm (keyvalue n) = Some (hm1, it)"
      "reinsert ins ns hm1 = Some r"
      using Cons.prems by (auto split: option.splits)
    then have "ins' hm (keyvalue n) = Some (hm1, it)" "reinsert ins' ns hm1 = Some r"
      using assms Cons.IH by simp_all
    then show ?thesis using True by simp
  qed
qed

lemma resize_with_mono:
  assumes "\<And>hm kv r. ins hm kv = Some r \<Longrightarrow> ins' hm kv = Some r"
  shows "resize_with ins hm = Some r \<Longrightarrow> resize_with ins' hm = Some r"
  unfolding resize_with_def using reinsert_mono [of ins ins', OF assms]
  by (simp split: if_splits)

lemma insert_hm_mono: "insert_hm d hm kv = Some r \<Longrightarrow> insert_hm (Suc d) hm kv = Some r"
proof (induction d arbitrary: hm kv r)
  case 0
  then show ?case by simp
next
  case (Suc d)
  from Suc.prems obtain hm1 where hm1: "resize_with (insert_hm d) hm = Some hm1"
    "r = insert_loop hm1 (fst kv) (get_hash hm1 (fst kv)) 0 kv 0 (- 1)"
    by (auto split: option.splits)
  have "resize_with (insert_hm (Suc d)) hm = Some hm1"
    using hm1(1) Suc.IH resize_with_mono [of "insert_hm d" "insert_hm (Suc d)" hm hm1]
    by blast
  then show ?case
    using hm1(2) insert_hm.simps(2) [of "Suc d" hm kv] by simp
qed

lemma insert_hm_mono_add: "insert_hm d hm kv = Some r \<Longrightarrow> insert_hm (d + k) hm kv = Some r"
proof (induction k)
  case 0
  then show ?case by simp
next
  case (Suc k)
  then have "insert_hm (Suc (d + k)) hm kv = Some r" by (intro insert_hm_mono) simp
  then show ?case by simp
qed

lemma insert_hm_Some:
  assumes inv: "table_inv hm" and res: "insert_hm d hm kv = Some (hm', it, ex)"
  shows "\<exists>hm1. table_inv hm1 \<and> table_inv hm'
         \<and> live (data hm1) = live (data hm) \<and> hasher hm' = hasher hm
         \<and> 2 * cnt_all hm1 \<le> buffer_size hm1
         \<and> (if fst kv \<in> fst ` live (data hm)
             then hm' = hm1 \<and> ex = AtMatch \<and> it < buffer_size hm'
                  \<and> status (data hm' ! it) = 1 \<and> fst (keyvalue (data hm' ! it)) = fst kv
             else ex = AtEmpty \<and> inserted hm1 kv hm')"
proof -
  have "insert_hm (d + 2) hm kv = Some (hm', it, ex)"
    using res by (rule insert_hm_mono_add)
  then have e: "insert_hm (Suc (Suc d)) hm kv = Some (hm', it, ex)" by simp
  obtain hm1 hm2 it2 ex2 where o: "insert_hm (Suc (Suc d)) hm kv = Some (hm2, it2, ex2)"
    "table_inv hm1" "table_inv hm2" "live (data hm1) = live (data hm)" "hasher hm2 = hasher hm"
    "2 * cnt_all hm1 \<le> buffer_size hm1"
    "if fst kv \<in> fst ` live (data hm)
     then hm2 = hm1 \<and> ex2 = AtMatch \<and> it2 < buffer_size hm2
          \<and> status (data hm2 ! it2) = 1 \<and> fst (keyvalue (data hm2 ! it2)) = fst kv
     else ex2 = AtEmpty \<and> inserted hm1 kv hm2"
    using insert_hm_ok [OF inv, of d kv] by blast
  have eqs: "hm2 = hm'" "it2 = it" "ex2 = ex" using e o(1) by simp_all
  show ?thesis using o(2-7) unfolding eqs by (intro exI [of _ hm1]) simp
qed

lemma insert_hm_total:
  assumes "table_inv hm" "2 \<le> d"
  shows "\<exists>r. insert_hm d hm kv = Some r"
proof -
  obtain d' where "d = Suc (Suc d')" using assms(2) by (metis add_2_eq_Suc le_Suc_ex)
  then show ?thesis using insert_hm_ok [OF assms(1), of d' kv] by (auto simp del: insert_hm.simps)
qed

subsection \<open>Reachable tables satisfy the invariant\<close>

lemma store_second_inv:
  assumes inv: "table_inv hm" and it: "it < length (data hm)" and occ: "status (data hm ! it) = 1"
  shows "table_inv (store_second hm it v)"
proof -
  let ?xs = "data hm"
  let ?nd = "(?xs ! it)\<lparr>keyvalue := (fst (keyvalue (?xs ! it)), v)\<rparr>"
  let ?ys = "?xs[it := ?nd]"
  from inv have so0: "slots_ok (hasher hm) ?xs" and ku0: "keys_unique ?xs"
    by (simp_all add: table_inv_def)
  have so: "slots_ok (hasher hm) ?ys"
    using so0 it
  proof (rule slots_ok_update)
    show "status ?nd \<noteq> - 1" using occ by simp
    show "status (?xs ! it) = - 1 \<or>
          status (?xs ! it) = 1 \<and> dist_to_ideal (?xs ! it) \<le> dist_to_ideal ?nd"
      using occ by simp
    show "dist_to_ideal ?nd < length ?xs
        \<and> (hasher hm (fst (keyvalue ?nd)) mod length ?xs + dist_to_ideal ?nd) mod length ?xs = it
        \<and> chain_ok ?xs (hasher hm (fst (keyvalue ?nd)) mod length ?xs) (dist_to_ideal ?nd)"
      using so0 it occ by (simp add: slots_ok_def)
  qed
  have ku: "keys_unique ?ys"
    using ku0
  proof (rule keys_unique_update)
    show "\<forall>q<length ?xs. q \<noteq> it \<longrightarrow> status (?xs ! q) = 1
            \<longrightarrow> fst (keyvalue (?xs ! q)) \<noteq> fst (keyvalue ?nd)"
      using ku0 it occ unfolding keys_unique_def by auto
  qed
  have st: "statuses_ok ?ys"
    using inv occ by (intro statuses_ok_update) (simp_all add: table_inv_def)
  have "it \<in> nonempty_slots ?xs" using it occ by (simp add: nonempty_slots_def)
  then have ne: "nonempty_slots ?ys = nonempty_slots ?xs"
    using nonempty_slots_update [OF it, of ?nd] occ by auto
  have "it \<notin> dead_slots ?xs" using occ by (simp add: dead_slots_def)
  then have de: "dead_slots ?ys = dead_slots ?xs"
    using dead_slots_update [OF it, of ?nd] occ by auto
  show ?thesis
    using inv so ku st ne de by (simp add: table_inv_def store_second_def)
qed

lemma assign_eq: "assign this other = other"
  by (cases this; cases other) (simp add: assign_def)

lemma clear_eq: "clear hm = HashMap_new (hasher hm)"
  by (simp add: clear_def assign_eq)

lemma insert_hm_scan:
  assumes "insert_hm d hm kv = Some r" "2 * cnt_all hm \<le> buffer_size hm"
  shows "r = insert_loop hm (fst kv) (get_hash hm (fst kv)) 0 kv 0 (- 1)"
proof (cases d)
  case 0
  then show ?thesis using assms(1) by simp
next
  case (Suc d')
  then show ?thesis using assms insert_hm_no_growth [OF assms(2), of d' kv] by simp
qed

lemma insert_range_inv:
  assumes "table_inv hm" "distinct (map fst kvs)"
    and "fst ` set kvs \<inter> fst ` live (data hm) = {}"
    and "2 * (cnt_all hm + length kvs) \<le> buffer_size hm"
    and "insert_range (insert_hm d) kvs hm = Some hm'"
  shows "table_inv hm'"
  using assms
proof (induction kvs arbitrary: hm)
  case Nil
  then show ?case by simp
next
  case (Cons kv kvs)
  from Cons.prems(5) obtain hm1 it ex where h: "insert_hm d hm kv = Some (hm1, it, ex)"
    "insert_range (insert_hm d) kvs hm1 = Some hm'"
    by (auto split: option.splits)
  have room: "2 * cnt_all hm \<le> buffer_size hm" using Cons.prems(4) by simp
  have res: "insert_loop hm (fst kv) (get_hash hm (fst kv)) 0 kv 0 (- 1) = (hm1, it, ex)"
    using insert_hm_scan [OF h(1) room] by simp
  have abs: "fst kv \<notin> fst ` live (data hm)" using Cons.prems(3) by auto
  have ins: "inserted hm kv hm1"
    using insert_scan_absent [OF Cons.prems(1) room abs res] by simp
  have inv1: "table_inv hm1" using Cons.prems(1) room ins by (rule inserted_inv)
  have f1: "buffer_size hm1 = buffer_size hm" "cnt_all hm1 = cnt_all hm + 1"
    "live (data hm1) = insert kv (live (data hm))"
    using ins by (simp_all add: inserted_def)
  have dis: "fst ` set kvs \<inter> fst ` live (data hm1) = {}"
    using Cons.prems(2,3) f1(3) by auto
  show ?case
  proof (rule Cons.IH [OF inv1 _ dis _ h(2)])
    show "distinct (map fst kvs)" using Cons.prems(2) by simp
    show "2 * (cnt_all hm1 + length kvs) \<le> buffer_size hm1" using Cons.prems(4) f1 by simp
  qed
qed

lemma rehash_inv:
  assumes inv: "table_inv hm"
    and res: "insert_range (insert_hm d) (take n (entries hm))
                (hm\<lparr>buffer_size := buffer_size hm * 2, cnt_dead := 0, cnt_all := 0,
                    data := replicate (buffer_size hm * 2) Node_empty\<rparr>) = Some hm'"
  shows "table_inv hm'"
proof -
  let ?hm0 = "hm\<lparr>buffer_size := buffer_size hm * 2, cnt_dead := 0, cnt_all := 0,
                  data := replicate (buffer_size hm * 2) Node_empty\<rparr>"
  have len: "length (data hm) = buffer_size hm" "16 \<le> buffer_size hm"
    using inv by (simp_all add: table_inv_def)
  have inv0: "table_inv ?hm0" using len(2) by (intro table_inv_empty) simp_all
  have "distinct (map fst (entries hm))"
    using distinct_entries [of "data hm"] inv
    by (simp add: entries_def table_inv_def comp_def)
  then have d: "distinct (map fst (take n (entries hm)))"
    by (simp add: take_map [symmetric])
  have "length (entries hm) \<le> buffer_size hm"
    using len(1) length_filter_le [of "\<lambda>nd. status nd = 1" "data hm"] by (simp add: entries_def)
  then have l: "2 * (cnt_all ?hm0 + length (take n (entries hm))) \<le> buffer_size ?hm0"
    by simp
  have e: "fst ` set (take n (entries hm)) \<inter> fst ` live (data ?hm0) = {}" by simp
  show ?thesis using inv0 d e l res by (rule insert_range_inv)
qed

lemma reachable_inv: "reachable hm \<Longrightarrow> table_inv hm"
proof (induction rule: reachable.induct)
  case (reach_new h)
  show ?case by (rule table_inv_new)
next
  case (reach_insert hm d kv hm' it ex)
  then show ?case using insert_hm_Some [of hm d kv hm' it ex] by blast
next
  case (reach_erase hm key)
  then show ?case by (intro erase_inv(1))
next
  case (reach_subscript hm d key hm' it)
  show ?case
  proof (cases "find_hm hm key = end_hm hm")
    case False
    then have "hm' = hm" using reach_subscript.hyps(2) by (simp add: subscript_def)
    then show ?thesis using reach_subscript.IH by simp
  next
    case True
    then obtain ex where "insert_hm d hm (key, default) = Some (hm', it, ex)"
      using reach_subscript.hyps(2) by (auto simp: subscript_def split: option.splits)
    then show ?thesis using insert_hm_Some [OF reach_subscript.IH] by blast
  qed
next
  case (reach_store hm it v)
  then show ?case by (intro store_second_inv)
next
  case (reach_clear hm)
  show ?case unfolding clear_eq by (rule table_inv_new)
next
  case (reach_assign other this)
  then show ?case by (simp add: assign_eq)
next
  case (reach_rehash hm d n hm')
  show ?case using reach_rehash.IH reach_rehash.hyps(3) by (rule rehash_inv)
qed

subsection \<open>Evaluation, concrete tables\<close>

lemma resize_with_code [code]:
  "resize_with ins hm =
     (if buffer_size hm < 2 * cnt_all hm
      then reinsert ins (data hm)
             (hm\<lparr>buffer_size := buffer_size hm * 2, cnt_dead := 0, cnt_all := 0,
                 data := replicate (buffer_size hm * 2) Node_empty\<rparr>)
      else Some hm)"
  by (simp add: resize_with_def grow_iff)

lemma reachable_insert:
  assumes "reachable hm" "2 \<le> d"
  shows "reachable (fst (the (insert_hm d hm kv)))"
proof -
  obtain r where r: "insert_hm d hm kv = Some r"
    using insert_hm_total [OF reachable_inv [OF assms(1)] assms(2)] by blast
  obtain hm' it ex where "r = (hm', it, ex)" by (metis prod_cases3)
  then show ?thesis using r reach_insert [OF assms(1), of d kv hm' it ex] by simp
qed

lemma reachable_table_1: "reachable table_1"
  unfolding table_1_def by (intro reachable_insert reach_new) simp

lemma reachable_table_2: "reachable table_2"
  unfolding table_2_def by (intro reachable_insert reachable_table_1) simp

lemma reachable_table_3: "reachable table_3"
  unfolding table_3_def by (intro reach_erase reachable_table_2)

subsection \<open>find on a table that satisfies the invariant\<close>

lemma find_hm_live:
  assumes inv: "table_inv hm" and kv: "(key, v) \<in> live (data hm)"
  shows "find_hm hm key < length (data hm)"
    and "status (data hm ! find_hm hm key) = 1"
    and "keyvalue (data hm ! find_hm hm key) = (key, v)"
proof -
  from kv obtain p where p: "p < length (data hm)" "status (data hm ! p) = 1"
    "keyvalue (data hm ! p) = (key, v)"
    unfolding live_iff by auto
  have "find_loop hm key (get_hash hm key) 0 = (p, AtMatch)"
    using inv p by (intro find_loop_present) (simp_all add: table_inv_def)
  then have "find_hm hm key = p" by (simp add: find_hm_def)
  then show "find_hm hm key < length (data hm)" "status (data hm ! find_hm hm key) = 1"
    "keyvalue (data hm ! find_hm hm key) = (key, v)"
    using p by simp_all
qed

lemma find_hm_absent:
  assumes "key \<notin> fst ` live (data hm)" "length (data hm) = buffer_size hm"
  shows "find_hm hm key = buffer_size hm"
proof -
  obtain r ex where r: "find_loop hm key (get_hash hm key) 0 = (r, ex)" by (metis prod.exhaust)
  from find_loop_result [OF r] show ?thesis
  proof
    assume "ex = AtMatch \<and> r < buffer_size hm \<and> status (data hm ! r) = 1
            \<and> fst (keyvalue (data hm ! r)) = key"
    then have "key \<in> fst ` live (data hm)" unfolding key_live_iff using assms(2) by auto
    then show ?thesis using assms(1) by simp
  next
    assume "ex \<noteq> AtMatch \<and> r = buffer_size hm"
    then show ?thesis using r by (simp add: find_hm_def)
  qed
qed

lemma find_hm_end_iff:
  assumes inv: "table_inv hm"
  shows "find_hm hm key = end_hm hm \<longleftrightarrow> key \<notin> fst ` live (data hm)"
proof
  assume e: "find_hm hm key = end_hm hm"
  show "key \<notin> fst ` live (data hm)"
  proof
    assume "key \<in> fst ` live (data hm)"
    then obtain v where "(key, v) \<in> live (data hm)" by auto
    from find_hm_live(1) [OF inv this] show False using e by (simp add: end_hm_def)
  qed
next
  assume "key \<notin> fst ` live (data hm)"
  then show "find_hm hm key = end_hm hm"
    using find_hm_absent [of key hm] inv by (simp add: end_hm_def table_inv_def)
qed


subsection \<open>resize on a table that satisfies the invariant\<close>

lemma resize_Some:
  assumes inv: "table_inv hm" and res: "resize d hm = Some hm1"
  shows "table_inv hm1" and "2 * cnt_all hm1 \<le> buffer_size hm1"
    and "live (data hm1) = live (data hm)" and "hasher hm1 = hasher hm"
    and "buffer_size hm < 2 * cnt_all hm \<Longrightarrow>
           buffer_size hm1 = 2 * buffer_size hm \<and> cnt_dead hm1 = 0"
    and "\<not> buffer_size hm < 2 * cnt_all hm \<Longrightarrow> hm1 = hm"
proof -
  have "resize_with (insert_hm (Suc d)) hm = Some hm1"
    using res insert_hm_mono resize_with_mono [of "insert_hm d" "insert_hm (Suc d)" hm hm1]
    unfolding resize_def by blast
  moreover obtain hm2 where hm2: "resize_with (insert_hm (Suc d)) hm = Some hm2"
    "table_inv hm2" "2 * cnt_all hm2 \<le> buffer_size hm2" "live (data hm2) = live (data hm)"
    "hasher hm2 = hasher hm"
    "if buffer_size hm < 2 * cnt_all hm
     then buffer_size hm2 = 2 * buffer_size hm \<and> cnt_dead hm2 = 0 else hm2 = hm"
    using resize_with_ok [OF inv, of d] by blast
  ultimately have e: "hm2 = hm1" by simp
  show "table_inv hm1" "2 * cnt_all hm1 \<le> buffer_size hm1"
    "live (data hm1) = live (data hm)" "hasher hm1 = hasher hm"
    using hm2(2-5) unfolding e by simp_all
  show "buffer_size hm1 = 2 * buffer_size hm \<and> cnt_dead hm1 = 0"
    if "buffer_size hm < 2 * cnt_all hm"
    using hm2(6) that unfolding e by simp
  show "hm1 = hm" if "\<not> buffer_size hm < 2 * cnt_all hm"
    using hm2(6) that unfolding e by simp
qed

lemma resize_total:
  assumes inv: "table_inv hm"
  shows "\<exists>hm1. resize (Suc d) hm = Some hm1"
  using resize_with_ok [OF inv, of d] unfolding resize_def by blast

lemma reinsert_entries:
  "reinsert ins ns hm =
     insert_range ins (map keyvalue (filter (\<lambda>n. status n = 1) ns)) hm"
  by (induction ns arbitrary: hm) (auto split: option.splits)

lemma no_tombstones:
  assumes inv: "table_inv hm" and d0: "cnt_dead hm = 0"
  shows "\<forall>nd \<in> set (data hm). status nd \<noteq> 0"
proof
  fix nd assume "nd \<in> set (data hm)"
  then obtain p where p: "p < length (data hm)" "data hm ! p = nd"
    by (auto simp: in_set_conv_nth)
  have "card (dead_slots (data hm)) = 0" using inv d0 by (simp add: table_inv_def)
  then have "dead_slots (data hm) = {}" by simp
  then show "status nd \<noteq> 0" using p by (auto simp: dead_slots_def)
qed

lemma length_entries:
  assumes inv: "table_inv hm"
  shows "length (entries hm) = size_hm hm"
proof -
  have "length (entries hm) = card {p. p < length (data hm) \<and> status (data hm ! p) = 1}"
    by (simp add: entries_def length_filter_conv_card)
  also have "\<dots> = card (live (data hm))"
    using live_card(1) [of "data hm"] inv by (simp add: table_inv_def)
  finally show ?thesis using size_hm_live(2) [OF inv] by simp
qed

lemma probe_chain_ok_inv:
  assumes inv: "table_inv hm"
  shows "probe_chain_ok hm"
  unfolding probe_chain_ok_def
proof (intro ballI impI)
  fix i j
  let ?n = "buffer_size hm"
  let ?h = "get_hash hm (fst (keyvalue (data hm ! i)))"
  assume i: "i \<in> {0..<length (data hm)}" and occ: "status (data hm ! i) = 1"
    and j: "j \<in> {0..<(i + ?n - ?h) mod ?n}"
  have len: "length (data hm) = ?n" and n: "16 \<le> ?n"
    and so: "slots_ok (hasher hm) (data hm)"
    using inv by (simp_all add: table_inv_def)
  let ?d = "dist_to_ideal (data hm ! i)"
  have s: "?d < ?n" "(?h + ?d) mod ?n = i" "chain_ok (data hm) ?h ?d"
    using so i occ len by (auto simp: slots_ok_def get_hash_def)
  have "?h < ?n" using n by (simp add: get_hash_def)
  then have "?d = (i + ?n - ?h) mod ?n" using s(1,2) by (intro probe_dist)
  then have "j < ?d" using j by simp
  then show "status (data hm ! ((?h + j) mod ?n)) \<noteq> - 1"
    using s(3) len by (simp add: chain_ok_def)
qed

lemma empty_slot_exists:
  assumes inv: "table_inv hm"
  shows "\<exists>p<length (data hm). status (data hm ! p) = - 1"
proof (rule ccontr)
  assume "\<not> (\<exists>p<length (data hm). status (data hm ! p) = - 1)"
  then have "\<forall>i0<length (data hm). status (data hm ! ((0 + i0) mod length (data hm))) \<noteq> - 1"
    by simp
  then have "card (nonempty_slots (data hm)) = length (data hm)"
    by (rule all_slots_nonempty)
  then show False using inv by (auto simp: table_inv_def)
qed

subsection \<open>Sequences of insertions and erasures\<close>

lemma keys_erase: "fst ` {kv \<in> S. fst kv \<noteq> key} = fst ` S - {key}"
  by (auto simp: image_iff)

lemma insert_hm_keys:
  assumes inv: "table_inv hm" and res: "insert_hm d hm kv = Some (hm', it, ex)"
  shows "fst ` live (data hm') = insert (fst kv) (fst ` live (data hm))"
    and "fst kv \<in> fst ` live (data hm) \<Longrightarrow> live (data hm') = live (data hm)"
    and "fst kv \<notin> fst ` live (data hm) \<Longrightarrow> live (data hm') = insert kv (live (data hm))"
proof -
  obtain hm1 where o: "live (data hm1) = live (data hm)"
    "if fst kv \<in> fst ` live (data hm)
     then hm' = hm1 \<and> ex = AtMatch \<and> it < buffer_size hm'
          \<and> status (data hm' ! it) = 1 \<and> fst (keyvalue (data hm' ! it)) = fst kv
     else ex = AtEmpty \<and> inserted hm1 kv hm'"
    using insert_hm_Some [OF inv res] by blast
  show p: "live (data hm') = live (data hm)" if "fst kv \<in> fst ` live (data hm)"
    using o that by simp
  show a: "live (data hm') = insert kv (live (data hm))" if "fst kv \<notin> fst ` live (data hm)"
    using o that by (simp add: inserted_def)
  show "fst ` live (data hm') = insert (fst kv) (fst ` live (data hm))"
  proof (cases "fst kv \<in> fst ` live (data hm)")
    case True
    then show ?thesis using p by auto
  next
    case False
    then show ?thesis using a by simp
  qed
qed

lemma run_ok:
  assumes "table_inv hm" "2 \<le> d"
  shows "\<exists>hm'. run d cs hm = Some hm' \<and> table_inv hm'
           \<and> fst ` live (data hm') = keys_after cs (fst ` live (data hm))"
  using assms(1)
proof (induction cs arbitrary: hm)
  case Nil
  then show ?case by simp
next
  case (Cons c cs)
  show ?case
  proof (cases c)
    case (Insert kv)
    obtain r where r: "insert_hm d hm kv = Some r"
      using insert_hm_total [OF Cons.prems assms(2)] by blast
    obtain hm1 it ex where r': "r = (hm1, it, ex)" by (metis prod_cases3)
    have res: "insert_hm d hm kv = Some (hm1, it, ex)" using r r' by simp
    have inv1: "table_inv hm1" using insert_hm_Some [OF Cons.prems res] by blast
    have k1: "fst ` live (data hm1) = insert (fst kv) (fst ` live (data hm))"
      using insert_hm_keys(1) [OF Cons.prems res] .
    from Cons.IH [OF inv1] obtain hm' where "run d cs hm1 = Some hm'" "table_inv hm'"
      "fst ` live (data hm') = keys_after cs (fst ` live (data hm1))"
      by blast
    then show ?thesis using Insert res k1 by simp
  next
    case (Erase key)
    note e = erase_inv [OF Cons.prems, of key]
    have k1: "fst ` live (data (erase hm key)) = fst ` live (data hm) - {key}"
      using e(2) keys_erase by metis
    from Cons.IH [OF e(1)] obtain hm' where "run d cs (erase hm key) = Some hm'" "table_inv hm'"
      "fst ` live (data hm') = keys_after cs (fst ` live (data (erase hm key)))"
      by blast
    then show ?thesis using Erase k1 by simp
  qed
qed


lemma insert_value_kept:
  assumes inv: "table_inv hm" and kv: "(k, v1) \<in> live (data hm)" and it: "it < length (data hm)"
    and occ: "status (data hm ! it) = 1" and key: "fst (keyvalue (data hm ! it)) = k"
  shows "keyvalue (data hm ! it) = (k, v1)" and "find_hm hm k = it"
proof -
  note f = find_hm_live [OF inv kv]
  have ku: "keys_unique (data hm)" using inv by (simp add: table_inv_def)
  have "fst (keyvalue (data hm ! find_hm hm k)) = fst (keyvalue (data hm ! it))"
    using f(3) key by simp
  then show e: "find_hm hm k = it"
    using ku f(1,2) it occ unfolding keys_unique_def by blast
  show "keyvalue (data hm ! it) = (k, v1)" using f(3) e by simp
qed

lemma run_reachable:
  "reachable hm \<Longrightarrow> run d cs hm = Some hm' \<Longrightarrow> reachable hm'"
proof (induction cs arbitrary: hm)
  case Nil
  then show ?case by simp
next
  case (Cons c cs)
  show ?case
  proof (cases c)
    case (Insert kv)
    then obtain hm1 it ex where h: "insert_hm d hm kv = Some (hm1, it, ex)"
      "run d cs hm1 = Some hm'"
      using Cons.prems(2) by (auto split: option.splits)
    have "reachable hm1" using Cons.prems(1) h(1) by (rule reach_insert)
    then show ?thesis using h(2) by (rule Cons.IH)
  next
    case (Erase key)
    then have "run d cs (erase hm key) = Some hm'" using Cons.prems(2) by simp
    moreover have "reachable (erase hm key)" using Cons.prems(1) by (rule reach_erase)
    ultimately show ?thesis by (intro Cons.IH)
  qed
qed

lemma reachable_table_9: "reachable table_9"
proof -
  have "table_inv (HashMap_new id_hash :: (int, int) HashMap)" by (rule table_inv_new)
  from run_ok [OF this, of 2 commands_9]
  obtain hm' where "run 2 commands_9 (HashMap_new id_hash) = Some hm'"
    by auto
  then show ?thesis
    unfolding table_9_def using run_reachable [OF reach_new] by (simp del: run.simps)
qed

subsection \<open>Objects on the heap\<close>

lemma swaps_buffer_code [code]:
  "swaps_buffer (M_insert kv) hm \<longleftrightarrow> buffer_size hm < 2 * cnt_all hm"
  "swaps_buffer (M_subscript_store key v) hm \<longleftrightarrow>
     find_hm hm key = end_hm hm \<and> buffer_size hm < 2 * cnt_all hm"
  "swaps_buffer (M_erase key) hm \<longleftrightarrow> False"
  "swaps_buffer M_clear hm \<longleftrightarrow> False"
  by (simp_all add: grow_iff)

lemma view_members [simp]: "view (members hm p) (data hm) = hm"
  by (simp add: view_def members_def)

lemma obj_data_members [simp]: "obj_data (members hm p) = p"
  by (simp add: members_def)







subsection \<open>The iterator that insert returns, and member functions in sequence\<close>












section \<open>The claims\<close>

text \<open>
  C1, as the specification states it, fails: \<open>insert\<close> of a pair whose key the table
  already holds leaves the old value (that is C2). After \<open>insert((1, 5))\<close> and
  \<open>insert((1, 7))\<close>, \<open>find(1)\<close> is the slot 1, whose value is 5.
\<close>

theorem round_trip_counterexample:
  "reachable table_1
   \<and> find_hm (fst (the (insert_hm 2 table_1 (1, 7)))) 1 = 1
   \<and> snd (keyvalue (data (fst (the (insert_hm 2 table_1 (1, 7)))) ! 1)) = 5
   \<and> snd (keyvalue (data (fst (the (insert_hm 2 table_1 (1, 7))))
                       ! find_hm (fst (the (insert_hm 2 table_1 (1, 7)))) 1)) \<noteq> 7"
proof -
  have "find_hm (fst (the (insert_hm 2 table_1 (1, 7)))) 1 = 1" by code_simp
  moreover have "snd (keyvalue (data (fst (the (insert_hm 2 table_1 (1, 7)))) ! 1)) = 5"
    by code_simp
  ultimately show ?thesis using reachable_table_1 by simp
qed

text \<open>
  C1, amended: in a reachable table, for a key \<open>k\<close> that no occupied slot holds and any
  value \<open>v\<close>, \<open>insert((k, v))\<close> returns, and afterwards \<open>find(k)\<close> is an occupied slot with
  the pair \<open>(k, v)\<close>; for every key \<open>k\<close>, after \<open>erase(k)\<close>, \<open>find(k)\<close> is \<open>end()\<close>.
\<close>

theorem round_trip:
  assumes "reachable hm" "2 \<le> d"
  shows "(k \<notin> fst ` set (entries hm) \<longrightarrow>
            (\<exists>hm' it ex. insert_hm d hm (k, v) = Some (hm', it, ex)
               \<and> find_hm hm' k \<noteq> end_hm hm'
               \<and> status (data hm' ! find_hm hm' k) = 1
               \<and> keyvalue (data hm' ! find_hm hm' k) = (k, v)
               \<and> at_hm hm' k = Inr v))
       \<and> find_hm (erase hm k) k = end_hm (erase hm k)"
proof -
  have inv: "table_inv hm" using assms(1) by (rule reachable_inv)
  have 1: "\<exists>hm' it ex. insert_hm d hm (k, v) = Some (hm', it, ex)
               \<and> find_hm hm' k \<noteq> end_hm hm'
               \<and> status (data hm' ! find_hm hm' k) = 1
               \<and> keyvalue (data hm' ! find_hm hm' k) = (k, v)
               \<and> at_hm hm' k = Inr v"
    if abs: "k \<notin> fst ` set (entries hm)"
  proof -
    obtain r where r: "insert_hm d hm (k, v) = Some r"
      using insert_hm_total [OF inv assms(2)] by blast
    obtain hm' it ex where r': "r = (hm', it, ex)" by (metis prod_cases3)
    have res: "insert_hm d hm (k, v) = Some (hm', it, ex)" using r r' by simp
    have inv': "table_inv hm'" using insert_hm_Some [OF inv res] by blast
    have "live (data hm') = insert (k, v) (live (data hm))"
      using insert_hm_keys(3) [OF inv res] abs by (simp add: set_entries)
    then have l: "(k, v) \<in> live (data hm')" by simp
    note f = find_hm_live [OF inv' l]
    have "find_hm hm' k \<noteq> end_hm hm'" using f(1) by (simp add: end_hm_def)
    moreover from this have "at_hm hm' k = Inr v" using f(3) by (simp add: at_hm_def Let_def)
    ultimately show ?thesis using res f by blast
  qed
  have inv_e: "table_inv (erase hm k)" using inv by (rule erase_inv(1))
  have "k \<notin> fst ` live (data (erase hm k))"
    using erase_inv(2) [OF inv, of k] by auto
  then have 2: "find_hm (erase hm k) k = end_hm (erase hm k)"
    using find_hm_end_iff [OF inv_e] by simp
  show ?thesis using 1 2 by blast
qed

theorem round_trip_witness:
  "reachable table_1 \<and> (2::nat) \<le> 2 \<and> 17 \<notin> fst ` set (entries table_1)
   \<and> find_hm table_2 17 = 2 \<and> keyvalue (data table_2 ! 2) = (17, 4)
   \<and> find_hm (erase table_1 1) 1 = end_hm (erase table_1 1)"
proof -
  have a: "17 \<notin> fst ` set (entries table_1)" by code_simp
  have b: "find_hm table_2 17 = 2" "keyvalue (data table_2 ! 2) = (17, 4)" by code_simp+
  have "(2::nat) \<le> 2" by simp
  from round_trip [OF reachable_table_1 this, where k = 17 and v = 4]
    round_trip [OF reachable_table_1 this, where k = 1 and v = 0]
  show ?thesis using a b reachable_table_1 by simp
qed

text \<open>
  C2, as the specification states it, fails: \<open>insert\<close> of a key that is present is not
  a no-op in every table state. \<open>table_9\<close> maps 1 to 10; its 16 slots hold 8 pairs and the
  tombstone of key 3, so \<open>cnt_all_ = 9\<close> exceeds half the capacity. \<open>insert((1, 0))\<close> calls
  \<open>resize\<close> before it looks for the key: the table is rehashed into 32 slots, \<open>end()\<close>
  moves from 16 to 32, the tombstone in slot 3 is gone and both counters change. The
  value of key 1 and \<open>size()\<close> stay.
\<close>

theorem idempotent_insert_counterexample:
  "reachable table_9
   \<and> (1, 10) \<in> set (entries table_9)
   \<and> insert_hm 2 table_9 (1, 0) \<noteq> None
   \<and> buffer_size table_9 = 16
   \<and> buffer_size (fst (the (insert_hm 2 table_9 (1, 0)))) = 32
   \<and> end_hm table_9 = 16
   \<and> end_hm (fst (the (insert_hm 2 table_9 (1, 0)))) = 32
   \<and> status (data table_9 ! 3) = 0
   \<and> status (data (fst (the (insert_hm 2 table_9 (1, 0)))) ! 3) = - 1
   \<and> cnt_all table_9 = 9 \<and> cnt_dead table_9 = 1
   \<and> cnt_all (fst (the (insert_hm 2 table_9 (1, 0)))) = 8
   \<and> cnt_dead (fst (the (insert_hm 2 table_9 (1, 0)))) = 0
   \<and> data (fst (the (insert_hm 2 table_9 (1, 0)))) \<noteq> data table_9"
proof -
  have "(1, 10) \<in> set (entries table_9)
   \<and> insert_hm 2 table_9 (1, 0) \<noteq> None
   \<and> buffer_size table_9 = 16
   \<and> buffer_size (fst (the (insert_hm 2 table_9 (1, 0)))) = 32
   \<and> end_hm table_9 = 16
   \<and> end_hm (fst (the (insert_hm 2 table_9 (1, 0)))) = 32
   \<and> status (data table_9 ! 3) = 0
   \<and> status (data (fst (the (insert_hm 2 table_9 (1, 0)))) ! 3) = - 1
   \<and> cnt_all table_9 = 9 \<and> cnt_dead table_9 = 1
   \<and> cnt_all (fst (the (insert_hm 2 table_9 (1, 0)))) = 8
   \<and> cnt_dead (fst (the (insert_hm 2 table_9 (1, 0)))) = 0
   \<and> data (fst (the (insert_hm 2 table_9 (1, 0)))) \<noteq> data table_9"
    by code_simp
  with reachable_table_9 show ?thesis by (rule conjI)
qed

text \<open>
  C2, amended: in a reachable table that maps \<open>k\<close> to \<open>v1\<close>, \<open>insert((k, v2))\<close> returns
  through the match branch with the slot that holds \<open>k\<close>, which is the slot \<open>find(k)\<close>
  gives; the slot still holds \<open>v1\<close>, the pairs of the table and \<open>size()\<close> are as before.
  The call does what the growth check at its start does and nothing else: the table
  after it is the table after \<open>resize\<close>, which is the table itself when the check does
  not fire, and the rehashed table of doubled capacity when it fires.
\<close>

theorem idempotent_insert:
  assumes "reachable hm" "(k, v1) \<in> set (entries hm)" "2 \<le> d"
  shows "\<exists>hm' it. insert_hm d hm (k, v2) = Some (hm', it, AtMatch)
           \<and> resize (d - 1) hm = Some hm'
           \<and> (\<not> real (buffer_size hm) * load_factor < real (cnt_all hm) \<longrightarrow> hm' = hm)
           \<and> it < length (data hm') \<and> status (data hm' ! it) = 1
           \<and> keyvalue (data hm' ! it) = (k, v1)
           \<and> find_hm hm' k = it \<and> at_hm hm' k = Inr v1
           \<and> set (entries hm') = set (entries hm)
           \<and> size_hm hm' = size_hm hm"
proof -
  have inv: "table_inv hm" using assms(1) by (rule reachable_inv)
  obtain d' where d: "d = Suc (Suc d')" using assms(3) by (metis add_2_eq_Suc le_Suc_ex)
  have l: "(k, v1) \<in> live (data hm)" using assms(2) by (simp add: set_entries)
  then have pres: "fst (k, v2) \<in> fst ` live (data hm)" by force
  obtain hm1 hm' it ex where o: "resize (Suc d') hm = Some hm1"
    "insert_hm (Suc (Suc d')) hm (k, v2) = Some (hm', it, ex)"
    "table_inv hm'" "live (data hm1) = live (data hm)"
    "hm' = hm1 \<and> ex = AtMatch \<and> it < buffer_size hm'
          \<and> status (data hm' ! it) = 1 \<and> fst (keyvalue (data hm' ! it)) = fst (k, v2)"
    using insert_hm_ok [OF inv, of d' "(k, v2)"] pres by auto
  have e: "hm1 = hm'" "ex = AtMatch" using o(5) by simp_all
  have len: "length (data hm') = buffer_size hm'" using o(3) by (simp add: table_inv_def)
  have it: "it < length (data hm')" "status (data hm' ! it) = 1"
    "fst (keyvalue (data hm' ! it)) = k"
    using o(5) len by auto
  have l': "(k, v1) \<in> live (data hm')" using l o(4) e by simp
  note kept = insert_value_kept [OF o(3) l' it]
  have at: "at_hm hm' k = Inr v1"
    using kept it(1) by (simp add: at_hm_def Let_def end_hm_def)
  have same: "hm' = hm" if "\<not> real (buffer_size hm) * load_factor < real (cnt_all hm)"
    using resize_Some(6) [OF inv o(1)] that e by (simp add: grow_iff)
  have ent: "set (entries hm') = set (entries hm)" using o(4) e by (simp add: set_entries)
  have sz: "size_hm hm' = size_hm hm"
    using size_hm_live(2) [OF inv] size_hm_live(2) [OF o(3)] o(4) e by simp
  show ?thesis
    using o(1,2) e it(1,2) kept at same ent sz unfolding d
    by (intro exI [of _ hm'] exI [of _ it]) (simp del: insert_hm.simps)
qed

text \<open>The witness: in \<open>table_2\<close> the growth check does not fire and the table stays as it
  is; in \<open>table_9\<close> it fires, the capacity goes from 16 to 32, and key 1 keeps its value.\<close>

theorem idempotent_insert_witness:
  "reachable table_2 \<and> (17, 4) \<in> set (entries table_2) \<and> (2::nat) \<le> 2
   \<and> insert_hm 2 table_2 (17, 9) = Some (table_2, 2, AtMatch)
   \<and> at_hm table_2 17 = Inr 4
   \<and> (1, 10) \<in> set (entries table_9) \<and> buffer_size table_9 = 16
   \<and> snd (snd (the (insert_hm 2 table_9 (1, 0)))) = AtMatch
   \<and> buffer_size (fst (the (insert_hm 2 table_9 (1, 0)))) = 32
   \<and> at_hm (fst (the (insert_hm 2 table_9 (1, 0)))) 1 = Inr 10"
proof -
  have a: "(17, 4) \<in> set (entries table_2)" by code_simp
  have b: "\<not> real (buffer_size table_2) * load_factor < real (cnt_all table_2)"
    unfolding grow_iff by code_simp
  have c: "find_hm table_2 17 = 2" by code_simp
  have g: "(1, 10) \<in> set (entries table_9)" "buffer_size table_9 = 16"
    "snd (snd (the (insert_hm 2 table_9 (1, 0)))) = AtMatch"
    "buffer_size (fst (the (insert_hm 2 table_9 (1, 0)))) = 32"
    "at_hm (fst (the (insert_hm 2 table_9 (1, 0)))) 1 = Inr 10"
    by code_simp+
  have "(2::nat) \<le> 2" by simp
  from idempotent_insert [OF reachable_table_2 a this, of 9]
  have "insert_hm 2 table_2 (17, 9) = Some (table_2, 2, AtMatch) \<and> at_hm table_2 17 = Inr 4"
    using b c by (auto simp del: insert_hm.simps)
  then show ?thesis using a g reachable_table_2 by simp
qed

text \<open>
  C3. Run any sequence of insertions and erasures on a new table (with a depth bound of
  at least 2, every \<open>insert\<close> returns): in the resulting table the keys of the occupied
  slots are pairwise distinct, they are the keys inserted and not erased afterwards, and
  \<open>size()\<close> is their number.
\<close>

theorem unique_keys_and_size:
  assumes "2 \<le> d"
  shows "\<exists>hm. run d cs (HashMap_new h) = Some hm
           \<and> distinct (map fst (entries hm))
           \<and> fst ` set (entries hm) = keys_after cs {}
           \<and> size_hm hm = card (keys_after cs {})"
proof -
  have l0: "live (data (HashMap_new h :: ('a, 'b) HashMap)) = {}"
    by (simp add: HashMap_new_def)
  obtain hm where hm: "run d cs (HashMap_new h) = Some hm" "table_inv hm"
    "fst ` live (data hm) = keys_after cs {}"
    using run_ok [OF table_inv_new assms, of cs h] unfolding l0 by auto
  have "distinct (map fst (entries hm))"
    using distinct_entries [of "data hm"] hm(2)
    by (simp add: entries_def table_inv_def comp_def)
  moreover have "size_hm hm = card (keys_after cs {})"
    using size_hm_live(3) [OF hm(2)] hm(3) by simp
  ultimately show ?thesis using hm(1,3) by (simp add: set_entries)
qed

theorem unique_keys_and_size_witness:
  "(2::nat) \<le> 2
   \<and> (\<exists>hm. run 2 [Insert (1, 5), Insert (17, 4), Insert (1, 7), Erase 1, Erase 3]
              (HashMap_new id_hash) = Some hm
         \<and> distinct (map fst (entries hm))
         \<and> fst ` set (entries hm) = {17}
         \<and> size_hm hm = 1)"
proof -
  have "(2::nat) \<le> 2" by simp
  from unique_keys_and_size [OF this, of "[Insert (1, 5), Insert (17, 4), Insert (1, 7), Erase 1, Erase 3]" id_hash]
  show ?thesis by (simp del: insert_hm.simps run.simps add: insert_Diff_if)
qed



text \<open>
  C5. Every reachable table (the tables inside a growth step are among them) has
  probe-chain integrity: between the ideal slot of the key of an occupied slot and that
  slot (wrapping), no slot is empty. The tables that the growth step, \<open>insert\<close>, \<open>erase\<close>
  and \<open>operator[]\<close> make of a reachable table have it too.
\<close>

theorem probe_chain_integrity:
  assumes "reachable hm"
  shows "probe_chain_ok hm
       \<and> probe_chain_ok (erase hm key)
       \<and> (\<forall>hm1. resize d hm = Some hm1 \<longrightarrow> probe_chain_ok hm1)
       \<and> (\<forall>hm' it ex. insert_hm d hm kv = Some (hm', it, ex) \<longrightarrow> probe_chain_ok hm')
       \<and> (\<forall>hm' it. subscript d hm key = Some (hm', it) \<longrightarrow> probe_chain_ok hm')"
proof -
  have inv: "table_inv hm" using assms by (rule reachable_inv)
  have 1: "probe_chain_ok hm" using inv by (rule probe_chain_ok_inv)
  have 2: "probe_chain_ok (erase hm key)"
    using reach_erase [OF assms] by (intro probe_chain_ok_inv reachable_inv)
  have 3: "probe_chain_ok hm1" if "resize d hm = Some hm1" for hm1
    using resize_Some(1) [OF inv that] by (rule probe_chain_ok_inv)
  have 4: "probe_chain_ok hm'" if "insert_hm d hm kv = Some (hm', it, ex)" for hm' it ex
    using reach_insert [OF assms that] by (intro probe_chain_ok_inv reachable_inv)
  have 5: "probe_chain_ok hm'" if "subscript d hm key = Some (hm', it)" for hm' it
    using reach_subscript [OF assms that] by (intro probe_chain_ok_inv reachable_inv)
  show ?thesis using 1 2 3 4 5 by blast
qed

theorem probe_chain_integrity_witness:
  "reachable table_3 \<and> probe_chain_ok table_3
   \<and> status (data table_3 ! 2) = 1 \<and> fst (keyvalue (data table_3 ! 2)) = 17
   \<and> get_hash table_3 17 = 1 \<and> status (data table_3 ! 1) = 0"
proof -
  have "status (data table_3 ! 2) = 1" "fst (keyvalue (data table_3 ! 2)) = 17"
    "get_hash table_3 17 = 1" "status (data table_3 ! 1) = 0"
    by code_simp+
  then show ?thesis
    using probe_chain_integrity [OF reachable_table_3] reachable_table_3 by simp
qed

text \<open>
  C6. \<open>insert\<close> starts with the growth check. In a reachable table, if \<open>cnt_all_\<close> is at
  most half the capacity the check leaves the table as it is; otherwise the check
  returns the table that inserting the pairs of the occupied slots, in slot order, makes
  of a new array of twice the capacity with both counters at zero. That table has twice
  the capacity, no tombstone, \<open>cnt_dead_ = 0\<close>, and the same pairs and \<open>size()\<close> as
  before.
\<close>

theorem growth_policy:
  assumes "reachable hm"
  shows "insert_hm (Suc d) hm kv =
           (case resize d hm of
              None \<Rightarrow> None
            | Some hm1 \<Rightarrow> Some (insert_loop hm1 (fst kv) (get_hash hm1 (fst kv)) 0 kv 0 (- 1)))
       \<and> (\<not> real (buffer_size hm) * load_factor < real (cnt_all hm) \<longrightarrow> resize d hm = Some hm)
       \<and> (real (buffer_size hm) * load_factor < real (cnt_all hm) \<longrightarrow>
            resize (Suc d) hm =
              insert_range (insert_hm (Suc d)) (entries hm)
                (hm\<lparr>buffer_size := buffer_size hm * 2, cnt_dead := 0, cnt_all := 0,
                    data := replicate (buffer_size hm * 2) Node_empty\<rparr>)
          \<and> (\<exists>hm1. resize (Suc d) hm = Some hm1
                \<and> buffer_size hm1 = 2 * buffer_size hm
                \<and> length (data hm1) = 2 * buffer_size hm
                \<and> cnt_dead hm1 = 0
                \<and> (\<forall>nd \<in> set (data hm1). status nd \<noteq> 0)
                \<and> set (entries hm1) = set (entries hm)
                \<and> cnt_all hm1 = length (entries hm)
                \<and> size_hm hm1 = size_hm hm))"
proof -
  have inv: "table_inv hm" using assms by (rule reachable_inv)
  have 1: "insert_hm (Suc d) hm kv =
           (case resize d hm of
              None \<Rightarrow> None
            | Some hm1 \<Rightarrow> Some (insert_loop hm1 (fst kv) (get_hash hm1 (fst kv)) 0 kv 0 (- 1)))"
    by (simp add: resize_def)
  have 2: "resize d hm = Some hm"
    if "\<not> real (buffer_size hm) * load_factor < real (cnt_all hm)"
    using that by (simp add: resize_def resize_with_def)
  have 3: "resize (Suc d) hm =
              insert_range (insert_hm (Suc d)) (entries hm)
                (hm\<lparr>buffer_size := buffer_size hm * 2, cnt_dead := 0, cnt_all := 0,
                    data := replicate (buffer_size hm * 2) Node_empty\<rparr>)"
    if "real (buffer_size hm) * load_factor < real (cnt_all hm)"
    using that unfolding resize_def resize_with_def entries_def reinsert_entries by simp
  have 4: "\<exists>hm1. resize (Suc d) hm = Some hm1
                \<and> buffer_size hm1 = 2 * buffer_size hm
                \<and> length (data hm1) = 2 * buffer_size hm
                \<and> cnt_dead hm1 = 0
                \<and> (\<forall>nd \<in> set (data hm1). status nd \<noteq> 0)
                \<and> set (entries hm1) = set (entries hm)
                \<and> cnt_all hm1 = length (entries hm)
                \<and> size_hm hm1 = size_hm hm"
    if g: "real (buffer_size hm) * load_factor < real (cnt_all hm)"
  proof -
    obtain hm1 where r: "resize (Suc d) hm = Some hm1"
      using resize_total [OF inv] by blast
    note rs = resize_Some [OF inv r]
    have g': "buffer_size hm < 2 * cnt_all hm" using g by (simp add: grow_iff)
    have b: "buffer_size hm1 = 2 * buffer_size hm" "cnt_dead hm1 = 0"
      using rs(5) [OF g'] by simp_all
    have len: "length (data hm1) = 2 * buffer_size hm"
      using rs(1) b(1) by (simp add: table_inv_def)
    have nt: "\<forall>nd \<in> set (data hm1). status nd \<noteq> 0"
      using rs(1) b(2) by (rule no_tombstones)
    have ent: "set (entries hm1) = set (entries hm)" using rs(3) by (simp add: set_entries)
    have sz: "size_hm hm1 = size_hm hm"
      using size_hm_live(2) [OF inv] size_hm_live(2) [OF rs(1)] rs(3) by simp
    have "cnt_all hm1 = size_hm hm1"
      using size_hm_live(1) [OF rs(1)] b(2) by (simp add: size_hm_def)
    then have ca: "cnt_all hm1 = length (entries hm)"
      using sz length_entries [OF inv] by simp
    show ?thesis using r b len nt ent ca sz by blast
  qed
  show ?thesis using 1 2 3 4 by blast
qed

theorem growth_policy_witness:
  "reachable table_9
   \<and> real (buffer_size table_9) * load_factor < real (cnt_all table_9)
   \<and> buffer_size table_9 = 16 \<and> cnt_all table_9 = 9 \<and> cnt_dead table_9 = 1
   \<and> (\<exists>hm1. resize 2 table_9 = Some hm1 \<and> buffer_size hm1 = 32 \<and> cnt_dead hm1 = 0
          \<and> cnt_all hm1 = 8 \<and> set (entries hm1) = set (entries table_9))"
proof -
  have g: "real (buffer_size table_9) * load_factor < real (cnt_all table_9)"
    unfolding grow_iff by code_simp
  have v: "buffer_size table_9 = 16" "cnt_all table_9 = 9" "cnt_dead table_9 = 1"
    "length (entries table_9) = 8"
    by code_simp+
  from growth_policy [OF reachable_table_9, of 1 "(0, 0)", unfolded Suc_1] g
  obtain hm1 where "resize 2 table_9 = Some hm1" "buffer_size hm1 = 2 * buffer_size table_9"
    "cnt_dead hm1 = 0" "cnt_all hm1 = length (entries table_9)"
    "set (entries hm1) = set (entries table_9)"
    by blast
  then show ?thesis using g v reachable_table_9 by simp
qed

text \<open>
  C7. \<open>at\<close> fails with KeyNotFound exactly when \<open>find\<close> returns \<open>end()\<close>, which in a
  reachable table is exactly when no occupied slot holds the key; otherwise it returns
  the value mapped to the key. \<open>at\<close> is a \<open>const\<close> member function: it has no state to
  return.
\<close>

theorem at_contract:
  assumes "reachable hm"
  shows "(at_hm hm key = Inl KeyNotFound \<longleftrightarrow> find_hm hm key = end_hm hm)
       \<and> (at_hm hm key = Inl KeyNotFound \<longleftrightarrow> key \<notin> fst ` set (entries hm))
       \<and> (\<forall>v. (key, v) \<in> set (entries hm) \<longrightarrow> at_hm hm key = Inr v)"
proof -
  have inv: "table_inv hm" using assms by (rule reachable_inv)
  have 1: "at_hm hm key = Inl KeyNotFound \<longleftrightarrow> find_hm hm key = end_hm hm"
    by (simp add: at_hm_def Let_def)
  have 2: "find_hm hm key = end_hm hm \<longleftrightarrow> key \<notin> fst ` set (entries hm)"
    using find_hm_end_iff [OF inv] by (simp add: set_entries)
  have 3: "at_hm hm key = Inr v" if "(key, v) \<in> set (entries hm)" for v
  proof -
    have l: "(key, v) \<in> live (data hm)" using that by (simp add: set_entries)
    from find_hm_live [OF inv l] show ?thesis by (simp add: at_hm_def Let_def end_hm_def)
  qed
  show ?thesis using 1 2 3 by blast
qed

theorem at_contract_witness:
  "reachable table_3
   \<and> at_hm table_3 1 = Inl KeyNotFound \<and> find_hm table_3 1 = end_hm table_3
   \<and> at_hm table_3 17 = Inr 4 \<and> (17, 4) \<in> set (entries table_3)"
proof -
  have e: "(17, 4) \<in> set (entries table_3)" by code_simp
  have f: "find_hm table_3 1 = end_hm table_3" by code_simp
  show ?thesis
    using at_contract [OF reachable_table_3, of 1] at_contract [OF reachable_table_3, of 17]
      e f reachable_table_3
    by blast
qed

text \<open>
  C8. \<open>clear\<close> leaves exactly the table that the constructor builds for the same hash
  functor: 16 slots, all empty, both counters zero, whatever the capacity was. Every
  sequence of insertions and erasures therefore runs to the same table, and with it to
  the same results and growth steps, from the cleared table as from a new one.
\<close>

theorem clear_is_fresh:
  "clear hm = HashMap_new (hasher hm)
   \<and> buffer_size (clear hm) = 16 \<and> cnt_all (clear hm) = 0 \<and> cnt_dead (clear hm) = 0
   \<and> data (clear hm) = replicate 16 Node_empty
   \<and> size_hm (clear hm) = 0
   \<and> run d cs (clear hm) = run d cs (HashMap_new (hasher hm))
   \<and> (2 \<le> d \<longrightarrow>
         (\<exists>t. run d cs (clear hm) = Some t \<and> run d cs (HashMap_new (hasher hm)) = Some t))"
proof -
  have e: "clear hm = HashMap_new (hasher hm)" by (rule clear_eq)
  have f: "buffer_size (clear hm) = 16" "cnt_all (clear hm) = 0" "cnt_dead (clear hm) = 0"
    "data (clear hm) = replicate 16 Node_empty" "size_hm (clear hm) = 0"
    unfolding e by (simp_all add: HashMap_new_def default_size_def size_hm_def)
  have r: "run d cs (clear hm) = run d cs (HashMap_new (hasher hm))"
    unfolding e by (rule refl)
  have t: "\<exists>t. run d cs (clear hm) = Some t \<and> run d cs (HashMap_new (hasher hm)) = Some t"
    if "2 \<le> d"
  proof -
    have "table_inv (HashMap_new (hasher hm) :: ('a, 'b) HashMap)" by (rule table_inv_new)
    from run_ok [OF this that, of cs] show ?thesis unfolding e by blast
  qed
  show ?thesis using e f r t by blast
qed

theorem clear_is_fresh_witness:
  "buffer_size table_10 = 32
   \<and> clear table_10 = HashMap_new (hasher table_10)
   \<and> buffer_size (clear table_10) = 16
   \<and> (2::nat) \<le> 2
   \<and> run 2 commands_9 (clear table_10) = run 2 commands_9 (HashMap_new (hasher table_10))
   \<and> run 2 commands_9 (clear table_10) \<noteq> None"
proof -
  have b: "buffer_size table_10 = 32" by code_simp
  have "(2::nat) \<le> 2" by simp
  then show ?thesis using clear_is_fresh [of table_10 2 commands_9] b by auto
qed



text \<open>
  C10. A reachable table (the tables inside a growth step are among them) has an empty
  slot, and at most half of its slots plus one are occupied or tombstones; after the
  growth check of \<open>insert\<close>, at most half. Hence no scan of \<open>find\<close>, \<open>erase\<close> or \<open>insert\<close>
  on a reachable table ends by falling through its loop: \<open>insert\<close> returns (for a depth
  bound of at least 2) through the match branch or by placing the pair in an empty slot.
\<close>

theorem empty_slot_always:
  assumes "reachable hm"
  shows "(\<exists>p<length (data hm). status (data hm ! p) = - 1)
       \<and> 2 * cnt_all hm \<le> buffer_size hm + 2
       \<and> (\<forall>hm1. resize d hm = Some hm1 \<longrightarrow>
             2 * cnt_all hm1 \<le> buffer_size hm1
           \<and> (\<exists>p<length (data hm1). status (data hm1 ! p) = - 1))
       \<and> snd (find_loop hm key (get_hash hm key) 0) \<noteq> FellThrough
       \<and> snd (erase_loop hm key (get_hash hm key) 0) \<noteq> FellThrough
       \<and> (\<forall>hm' it ex. insert_hm d hm kv = Some (hm', it, ex) \<longrightarrow> ex \<noteq> FellThrough)
       \<and> (2 \<le> d \<longrightarrow>
             (\<exists>hm' it ex. insert_hm d hm kv = Some (hm', it, ex)
                \<and> (ex = AtMatch \<or> ex = AtEmpty)))"
proof -
  have inv: "table_inv hm" using assms by (rule reachable_inv)
  have len: "length (data hm) = buffer_size hm" using inv by (simp add: table_inv_def)
  have card: "card (nonempty_slots (data hm)) < buffer_size hm"
    using inv by (rule nonempty_card_less')
  have 1: "\<exists>p<length (data hm). status (data hm ! p) = - 1"
    using inv by (rule empty_slot_exists)
  have 2: "2 * cnt_all hm \<le> buffer_size hm + 2" using inv by (simp add: table_inv_def)
  have 3: "2 * cnt_all hm1 \<le> buffer_size hm1
           \<and> (\<exists>p<length (data hm1). status (data hm1 ! p) = - 1)"
    if "resize d hm = Some hm1" for hm1
    using resize_Some(1,2) [OF inv that] empty_slot_exists by blast
  have 4: "snd (find_loop hm key (get_hash hm key) 0) \<noteq> FellThrough"
    using len card by (rule find_loop_exit) simp
  have "snd (erase_loop hm key (get_hash hm key) 0) = AtEmpty"
    using len card by (rule erase_loop_exit) simp
  then have 5: "snd (erase_loop hm key (get_hash hm key) 0) \<noteq> FellThrough" by simp
  have 6: "ex \<noteq> FellThrough" if "insert_hm d hm kv = Some (hm', it, ex)" for hm' it ex
    using insert_hm_Some [OF inv that] by (auto split: if_splits)
  have 7: "\<exists>hm' it ex. insert_hm d hm kv = Some (hm', it, ex) \<and> (ex = AtMatch \<or> ex = AtEmpty)"
    if d: "2 \<le> d"
  proof -
    obtain r where r: "insert_hm d hm kv = Some r"
      using insert_hm_total [OF inv d] by blast
    obtain hm' it ex where r': "r = (hm', it, ex)" by (metis prod_cases3)
    have res: "insert_hm d hm kv = Some (hm', it, ex)" using r r' by simp
    from 6 [OF res] have "ex = AtMatch \<or> ex = AtEmpty" by (cases ex) simp_all
    then show ?thesis using res by blast
  qed
  show ?thesis using 1 2 3 4 5 6 7 by blast
qed

theorem empty_slot_always_witness:
  "reachable table_9 \<and> (2::nat) \<le> 2
   \<and> cnt_all table_9 = 9 \<and> buffer_size table_9 = 16
   \<and> status (data table_9 ! 0) = - 1
   \<and> snd (find_loop table_9 25 (get_hash table_9 25) 0) = AtEmpty
   \<and> snd (erase_loop table_9 25 (get_hash table_9 25) 0) = AtEmpty
   \<and> snd (snd (the (insert_hm 2 table_9 (25, 0)))) = AtEmpty
   \<and> buffer_size (fst (the (insert_hm 2 table_9 (25, 0)))) = 32"
proof -
  have v: "cnt_all table_9 = 9" "buffer_size table_9 = 16" "status (data table_9 ! 0) = - 1"
    "snd (find_loop table_9 25 (get_hash table_9 25) 0) = AtEmpty"
    "snd (erase_loop table_9 25 (get_hash table_9 25) 0) = AtEmpty"
    "snd (snd (the (insert_hm 2 table_9 (25, 0)))) = AtEmpty"
    "buffer_size (fst (the (insert_hm 2 table_9 (25, 0)))) = 32"
    by code_simp+
  have "(2::nat) \<le> 2" by simp
  then show ?thesis
    using empty_slot_always [OF reachable_table_9, of 2 25 "(25, 0)"] v reachable_table_9
    by blast
qed

end
